theory Spec2Isabelle
  imports Main "HOL-Library.Word"
begin

section \<open>The kernel heap as seen by the vector library\<close>

text \<open>
  \<^verbatim>\<open>libk/vector.h\<close> stores its elements in buffers obtained from the kernel heap
  (\<^verbatim>\<open>libk/heap.h\<close>). A pointer is an abstract block handle; a block is a list of
  element slots, and a slot that has never been written holds \<open>None\<close>. Everything in C
  that is undefined behaviour (a read or write outside a block, through a released handle
  or through a null pointer, a read of a slot never written) is a value of \<open>fault\<close>.
\<close>

type_synonym u32 = "32 word"
type_synonym addr = nat

datatype fault = Alloc_failure | Null_deref | Dangling | Out_of_bounds | Uninitialised

record 'a heap =
  blocks :: "addr \<Rightarrow> 'a option list option"
  brk :: addr
  avail :: nat
  freed :: "addr list"

text \<open>
  Modelled from the spec: \<^verbatim>\<open>libk/heap.h\<close> is not among the sources. The spec gives the
  allocator contract \<^verbatim>\<open>allocate(byte_count) -> buffer_handle | failure\<close> and
  \<^verbatim>\<open>free(buffer_handle)\<close>. The byte count is passed as a number of slots and the bytes
  per slot, so that the new block can be held as a list of slots. A request that exceeds
  the bytes left in the arena fails; a granted request returns a handle never handed out
  before. \<open>kfree\<close> (the name the header uses) releases the block and is recorded in the
  trace \<open>freed\<close>, one entry per call.
\<close>

definition allocate :: "'a heap \<Rightarrow> nat \<Rightarrow> nat \<Rightarrow> (addr \<times> 'a heap) option" where
  "allocate h n sz =
     (if n * sz \<le> avail h
      then Some (brk h, h\<lparr>blocks := (blocks h)(brk h \<mapsto> replicate n None),
                           brk := Suc (brk h),
                           avail := avail h - n * sz\<rparr>)
      else None)"

definition kfree :: "'a heap \<Rightarrow> addr \<Rightarrow> 'a heap" where
  "kfree h p = h\<lparr>blocks := (blocks h)(p := None), freed := freed h @ [p]\<rparr>"

text \<open>\<^verbatim>\<open>p[i]\<close> as an rvalue and \<^verbatim>\<open>p[i] = x\<close>.\<close>

definition load :: "'a heap \<Rightarrow> addr \<Rightarrow> nat \<Rightarrow> fault + 'a" where
  "load h p i =
     (case blocks h p of
        None \<Rightarrow> Inl Dangling
      | Some cells \<Rightarrow>
          if i < length cells
          then (case cells ! i of None \<Rightarrow> Inl Uninitialised | Some x \<Rightarrow> Inr x)
          else Inl Out_of_bounds)"

definition store :: "'a heap \<Rightarrow> addr \<Rightarrow> nat \<Rightarrow> 'a \<Rightarrow> fault + 'a heap" where
  "store h p i x =
     (case blocks h p of
        None \<Rightarrow> Inl Dangling
      | Some cells \<Rightarrow>
          if i < length cells
          then Inr (h\<lparr>blocks := (blocks h)(p \<mapsto> cells[i := Some x])\<rparr>)
          else Inl Out_of_bounds)"

section \<open>The generic vector\<close>

text \<open>
  \<^verbatim>\<open>struct vector\<close>: \<^verbatim>\<open>uint32_t size, capacity; size_t data_size; void* data\<close>.
  The typed structs generated by \<^verbatim>\<open>GENERATE_VECTOR\<close> and \<^verbatim>\<open>GENERATE_PTR_VECTOR\<close> begin
  with the same four fields and are cast to \<^verbatim>\<open>vector*\<close>; they are record extensions, and
  the shared routines work on any extension. The field \<^verbatim>\<open>size\<close> is \<open>size_v\<close> here.
\<close>

record vector =
  size_v :: u32
  capacity :: u32
  data_size :: nat
  data :: addr

definition DEFAULT_CAPACITY :: u32 where
  "DEFAULT_CAPACITY = 1"

text \<open>
  Modelled from the spec: \<^verbatim>\<open>new_vector\<close>, \<^verbatim>\<open>delete_vector\<close> and \<^verbatim>\<open>vector_resize\<close> are
  declared in \<^verbatim>\<open>vector.h\<close> but their bodies are not among the sources.

  \<^verbatim>\<open>new_vector(vector_size, size)\<close>: the spec's construction "allocates a buffer sized for
  the default capacity (1 element); size = 0" and "fails (propagates an allocation-failure
  condition) if the underlying allocator cannot satisfy the request". The function returns
  a \<^verbatim>\<open>vector*\<close>, so the failure is the null pointer, \<open>None\<close> here. The struct itself is the
  record value, so \<open>vector_size\<close> takes no part.
\<close>

definition new_vector :: "nat \<Rightarrow> nat \<Rightarrow> 'a heap \<Rightarrow> (vector \<times> 'a heap) option" where
  "new_vector vector_size sz h =
     (case allocate h (unat DEFAULT_CAPACITY) sz of
        None \<Rightarrow> None
      | Some (p, h1) \<Rightarrow>
          Some (\<lparr>size_v = 0, capacity = DEFAULT_CAPACITY, data_size = sz, data = p\<rparr>, h1))"

text \<open>
  Modelled from the spec: \<^verbatim>\<open>delete_vector\<close> "frees the backing buffer".
\<close>

definition delete_vector :: "'z vector_scheme \<Rightarrow> 'a heap \<Rightarrow> 'a heap" where
  "delete_vector v h = kfree h (data v)"

text \<open>
  Modelled from the spec: \<^verbatim>\<open>vector_resize\<close>. "The new capacity is computed as
  \<^verbatim>\<open>max(1, capacity * 2)\<close>", here in the arithmetic of the \<^verbatim>\<open>uint32_t\<close> field it is read
  from and stored to. "Growth always reallocates a fresh buffer of
  \<^verbatim>\<open>new_capacity * element_size\<close> bytes, copies the first \<^verbatim>\<open>size\<close> element-slots verbatim
  from the old buffer, frees the old buffer, and updates \<^verbatim>\<open>capacity\<close>." "Growth failure
  (allocator exhaustion) is a fatal condition for the push": the function returns
  \<^verbatim>\<open>void\<close>, so the failure is the fault \<open>Alloc_failure\<close>. Copying \<^verbatim>\<open>size\<close> slots out of a
  shorter old buffer or into a shorter new one runs outside a block.
\<close>

definition vector_resize ::
  "'z vector_scheme \<Rightarrow> 'a heap \<Rightarrow> fault + ('z vector_scheme \<times> 'a heap)" where
  "vector_resize v h =
     (let new_capacity = max 1 (capacity v * 2) in
      case allocate h (unat new_capacity) (data_size v) of
        None \<Rightarrow> Inl Alloc_failure
      | Some (p, h1) \<Rightarrow>
          (case blocks h1 (data v) of
             None \<Rightarrow> Inl Dangling
           | Some old \<Rightarrow>
               if unat (size_v v) \<le> length old \<and> unat (size_v v) \<le> unat new_capacity
               then Inr (v\<lparr>capacity := new_capacity, data := p\<rparr>,
                         kfree (h1\<lparr>blocks := (blocks h1)(p \<mapsto>
                                   take (unat (size_v v)) old @
                                   replicate (unat new_capacity - unat (size_v v)) None)\<rparr>)
                               (data v))
               else Inl Out_of_bounds))"

section \<open>Vectors of values: \<^verbatim>\<open>GENERATE_VECTOR(type)\<close>\<close>

text \<open>
  The three function pointers of a typed vector hold one of the generated functions.
\<close>

datatype fn =
  Fn_delete_T_vector | Fn_push_T_vector | Fn_pop_T_vector
| Fn_delete_T_ptr_vector | Fn_push_T_ptr_vector | Fn_pop_T_ptr_vector

record T_vector = vector +
  delete :: fn
  push :: fn
  pop :: fn

text \<open>
  \<^verbatim>\<open>push_##type##_vector\<close>: resize when full, write at index \<^verbatim>\<open>size\<close>, then \<^verbatim>\<open>size++\<close>.
\<close>

definition push_T_vector ::
  "T_vector \<Rightarrow> 'a heap \<Rightarrow> 'a \<Rightarrow> fault + (T_vector \<times> 'a heap)" where
  "push_T_vector vect h val =
     (case (if size_v vect = capacity vect then vector_resize vect h else Inr (vect, h)) of
        Inl e \<Rightarrow> Inl e
      | Inr (vect1, h1) \<Rightarrow>
          (case store h1 (data vect1) (unat (size_v vect1)) val of
             Inl e \<Rightarrow> Inl e
           | Inr h2 \<Rightarrow> Inr (vect1\<lparr>size_v := size_v vect1 + 1\<rparr>, h2)))"

text \<open>
  \<^verbatim>\<open>pop_##type##_vector\<close>: \<^verbatim>\<open>size--\<close> first, with no test, then the read of
  \<^verbatim>\<open>data[size]\<close> that is returned. The result is the struct after the decrement, together
  with the value read or the fault of reading it. The heap is only read.
\<close>

definition pop_T_vector :: "T_vector \<Rightarrow> 'a heap \<Rightarrow> T_vector \<times> (fault + 'a)" where
  "pop_T_vector vect h =
     (let vect1 = vect\<lparr>size_v := size_v vect - 1\<rparr>
      in (vect1, load h (data vect1) (unat (size_v vect1))))"

definition delete_T_vector :: "T_vector \<Rightarrow> 'a heap \<Rightarrow> 'a heap" where
  "delete_T_vector vect h = delete_vector vect h"

text \<open>
  \<^verbatim>\<open>new_##type##_vector\<close>: the result of \<^verbatim>\<open>new_vector\<close> is written through at once, with
  no test for null. \<open>sizeof_struct\<close> and \<open>sizeof_T\<close> stand for \<^verbatim>\<open>sizeof(type##_vector)\<close>
  and \<^verbatim>\<open>sizeof(type)\<close>.
\<close>

definition new_T_vector :: "nat \<Rightarrow> nat \<Rightarrow> 'a heap \<Rightarrow> fault + (T_vector \<times> 'a heap)" where
  "new_T_vector sizeof_struct sizeof_T h =
     (case new_vector sizeof_struct sizeof_T h of
        None \<Rightarrow> Inl Null_deref
      | Some (v, h1) \<Rightarrow>
          Inr (vector.extend v
                 (T_vector.fields Fn_delete_T_vector Fn_push_T_vector Fn_pop_T_vector), h1))"

section \<open>Vectors of pointers: \<^verbatim>\<open>GENERATE_PTR_VECTOR(type)\<close>\<close>

text \<open>
  The slots hold pointers, so the heap is an \<open>addr heap\<close>; what the referents contain is
  never looked at. \<^verbatim>\<open>own_ptrs\<close> sits between the four shared fields and the function
  pointers.
\<close>

record T_ptr_vector = vector +
  own_ptrs :: bool
  delete :: fn
  push :: fn
  pop :: fn

definition push_T_ptr_vector ::
  "T_ptr_vector \<Rightarrow> addr heap \<Rightarrow> addr \<Rightarrow> fault + (T_ptr_vector \<times> addr heap)" where
  "push_T_ptr_vector vect h val =
     (case (if size_v vect = capacity vect then vector_resize vect h else Inr (vect, h)) of
        Inl e \<Rightarrow> Inl e
      | Inr (vect1, h1) \<Rightarrow>
          (case store h1 (data vect1) (unat (size_v vect1)) val of
             Inl e \<Rightarrow> Inl e
           | Inr h2 \<Rightarrow> Inr (vect1\<lparr>size_v := size_v vect1 + 1\<rparr>, h2)))"

definition pop_T_ptr_vector :: "T_ptr_vector \<Rightarrow> addr heap \<Rightarrow> T_ptr_vector \<times> (fault + addr)" where
  "pop_T_ptr_vector vect h =
     (let vect1 = vect\<lparr>size_v := size_v vect - 1\<rparr>
      in (vect1, load h (data vect1) (unat (size_v vect1))))"




definition new_T_ptr_vector ::
  "nat \<Rightarrow> nat \<Rightarrow> bool \<Rightarrow> addr heap \<Rightarrow> fault + (T_ptr_vector \<times> addr heap)" where
  "new_T_ptr_vector sizeof_struct sizeof_ptr own h =
     (case new_vector sizeof_struct sizeof_ptr h of
        None \<Rightarrow> Inl Null_deref
      | Some (v, h1) \<Rightarrow>
          Inr (vector.extend v
                 (T_ptr_vector.fields own
                    Fn_delete_T_ptr_vector Fn_push_T_ptr_vector Fn_pop_T_ptr_vector), h1))"

section \<open>Callers\<close>

text \<open>
  Sequences of calls, as a caller of the header makes them. A fault ends the sequence. The
  value a pop returns is kept as it comes, a value or the fault of reading it; the struct
  it leaves behind is used by the next call either way.
\<close>

fun push_all :: "T_vector \<Rightarrow> 'a heap \<Rightarrow> 'a list \<Rightarrow> fault + (T_vector \<times> 'a heap)" where
  "push_all vect h [] = Inr (vect, h)"
| "push_all vect h (x # xs) =
     (case push_T_vector vect h x of
        Inl e \<Rightarrow> Inl e
      | Inr (vect1, h1) \<Rightarrow> push_all vect1 h1 xs)"

fun pop_n :: "nat \<Rightarrow> T_vector \<Rightarrow> 'a heap \<Rightarrow> T_vector \<times> (fault + 'a) list" where
  "pop_n 0 vect h = (vect, [])"
| "pop_n (Suc n) vect h =
     (case pop_T_vector vect h of
        (vect1, r) \<Rightarrow> (case pop_n n vect1 h of (vect2, rs) \<Rightarrow> (vect2, r # rs)))"

datatype 'a op = Push 'a | Pop

fun run :: "T_vector \<Rightarrow> 'a heap \<Rightarrow> 'a op list \<Rightarrow> fault + (T_vector \<times> 'a heap)" where
  "run vect h [] = Inr (vect, h)"
| "run vect h (Push x # ops) =
     (case push_T_vector vect h x of
        Inl e \<Rightarrow> Inl e
      | Inr (vect1, h1) \<Rightarrow> run vect1 h1 ops)"
| "run vect h (Pop # ops) = run (fst (pop_T_vector vect h)) h ops"

fun run_ptr ::
  "T_ptr_vector \<Rightarrow> addr heap \<Rightarrow> addr op list \<Rightarrow> fault + (T_ptr_vector \<times> addr heap)" where
  "run_ptr vect h [] = Inr (vect, h)"
| "run_ptr vect h (Push x # ops) =
     (case push_T_ptr_vector vect h x of
        Inl e \<Rightarrow> Inl e
      | Inr (vect1, h1) \<Rightarrow> run_ptr vect1 h1 ops)"
| "run_ptr vect h (Pop # ops) = run_ptr (fst (pop_T_ptr_vector vect h)) h ops"

text \<open>
  \<open>never_pops_empty ops n\<close>: started with \<open>n\<close> elements held, the sequence never calls
  pop while nothing is held.
\<close>

fun never_pops_empty :: "'a op list \<Rightarrow> nat \<Rightarrow> bool" where
  "never_pops_empty [] n = True"
| "never_pops_empty (Push x # ops) n = never_pops_empty ops (Suc n)"
| "never_pops_empty (Pop # ops) n = (0 < n \<and> never_pops_empty ops (n - 1))"

section \<open>Well-formed vectors\<close>

text \<open>
  \<open>repr h v xs\<close>: in the heap \<open>h\<close> the vector \<open>v\<close> is well formed and holds the elements
  \<open>xs\<close>. Its buffer is a live block handed out by the allocator, of \<^verbatim>\<open>capacity\<close> slots;
  \<^verbatim>\<open>size\<close> is the number of elements, at most \<^verbatim>\<open>capacity\<close>; the slots at \<open>[0, size)\<close> have
  been written and hold \<open>xs\<close> in order. The slots from \<^verbatim>\<open>size\<close> on are not constrained.
\<close>

definition repr :: "'a heap \<Rightarrow> 'z vector_scheme \<Rightarrow> 'a list \<Rightarrow> bool" where
  "repr h v xs \<longleftrightarrow>
     data v < brk h \<and> length xs = unat (size_v v) \<and>
     (case blocks h (data v) of
        None \<Rightarrow> False
      | Some cells \<Rightarrow>
          length cells = unat (capacity v) \<and> length xs \<le> length cells \<and>
          take (length xs) cells = map Some xs)"

text \<open>An empty arena of \<open>n\<close> bytes, for the examples.\<close>

definition arena :: "nat \<Rightarrow> 'a heap" where
  "arena n = \<lparr>blocks = (\<lambda>p. None), brk = 1, avail = n, freed = []\<rparr>"

section \<open>Lemmas on well-formed vectors\<close>

lemma reprE:
  assumes "repr h v xs"
  obtains cells where "blocks h (data v) = Some cells" "length cells = unat (capacity v)"
    "length xs = unat (size_v v)" "length xs \<le> length cells"
    "take (length xs) cells = map Some xs" "data v < brk h"
  using assms by (auto simp: repr_def split: option.splits)

lemma repr_size_le_capacity:
  assumes "repr h v xs"
  shows "unat (size_v v) \<le> unat (capacity v)"
  using assms by (auto simp: repr_def split: option.splits)

lemma take_snoc_nth:
  assumes "take (Suc n) cells = map Some xs @ [Some x]" "length xs = n"
  shows "cells ! n = Some x \<and> take n cells = map Some xs \<and> n < length cells"
proof -
  have len: "n < length cells"
  proof (rule ccontr)
    assume "\<not> n < length cells"
    then have "length (take (Suc n) cells) \<le> n" by simp
    with assms show False by simp
  qed
  have "take (Suc n) cells = take n cells @ [cells ! n]"
    using len by (simp add: take_Suc_conv_app_nth)
  with assms have "take n cells @ [cells ! n] = map Some xs @ [Some x]" by simp
  then show ?thesis using len by simp
qed

text \<open>The last element is where \<^verbatim>\<open>size - 1\<close> points, and dropping it leaves a well-formed vector.\<close>

lemma load_last_repr:
  assumes "repr h v (xs @ [x])"
  shows "size_v v \<noteq> 0 \<and> unat (size_v v - 1) = length xs \<and>
         load h (data v) (unat (size_v v - 1)) = Inr x \<and>
         repr h (v\<lparr>size_v := size_v v - 1\<rparr>) xs"
proof -
  from assms obtain cells where c: "blocks h (data v) = Some cells"
    "length cells = unat (capacity v)" "length (xs @ [x]) = unat (size_v v)"
    "take (length (xs @ [x])) cells = map Some (xs @ [x])" "data v < brk h"
    by (rule reprE)
  have sz: "unat (size_v v) = Suc (length xs)" using c(3) by simp
  then have nz: "size_v v \<noteq> 0" by auto
  then have dec: "unat (size_v v - 1) = length xs"
    using sz by (simp add: unat_minus_one)
  have t: "cells ! length xs = Some x \<and> take (length xs) cells = map Some xs \<and>
           length xs < length cells"
    using take_snoc_nth [of "length xs" cells xs x] c(4) by simp
  have 1: "load h (data v) (unat (size_v v - 1)) = Inr x"
    using c(1) t dec by (simp add: load_def)
  have 2: "repr h (v\<lparr>size_v := size_v v - 1\<rparr>) xs"
    using c(1,2,5) t dec by (simp add: repr_def)
  from nz dec 1 2 show ?thesis by simp
qed

lemma pop_T_vector_repr:
  assumes "repr h v (xs @ [x])"
  shows "pop_T_vector v h = (v\<lparr>size_v := size_v v - 1\<rparr>, Inr x) \<and>
         repr h (v\<lparr>size_v := size_v v - 1\<rparr>) xs"
  using load_last_repr [OF assms] by (auto simp: pop_T_vector_def Let_def)

lemma pop_T_ptr_vector_repr:
  assumes "repr h v (xs @ [x])"
  shows "pop_T_ptr_vector v h = (v\<lparr>size_v := size_v v - 1\<rparr>, Inr x) \<and>
         repr h (v\<lparr>size_v := size_v v - 1\<rparr>) xs"
  using load_last_repr [OF assms] by (auto simp: pop_T_ptr_vector_def Let_def)

text \<open>Growth keeps the elements and moves them to a new block.\<close>

lemma vector_resize_repr:
  assumes r: "repr h v xs" and ok: "vector_resize v h = Inr (v', h')"
  shows "repr h' v' xs \<and> capacity v' = max 1 (capacity v * 2) \<and> size_v v' = size_v v \<and>
         data v' = brk h \<and> data v' \<noteq> data v \<and> blocks h' (data v) = None \<and>
         freed h' = freed h @ [data v] \<and> data_size v' = data_size v \<and>
         vector.more v' = vector.more v"
proof -
  from r obtain cells where c: "blocks h (data v) = Some cells"
    "length cells = unat (capacity v)" "length xs = unat (size_v v)"
    "length xs \<le> length cells"
    "take (length xs) cells = map Some xs" "data v < brk h"
    by (rule reprE)
  show ?thesis
    using ok c
    by (auto simp: vector_resize_def Let_def allocate_def kfree_def repr_def
        split: option.splits if_splits)
qed

text \<open>The write at index \<^verbatim>\<open>size\<close> followed by \<^verbatim>\<open>size++\<close> appends an element.\<close>

lemma store_repr:
  assumes r: "repr h v xs" and ok: "store h (data v) (unat (size_v v)) x = Inr h2"
  shows "repr h2 (v\<lparr>size_v := size_v v + 1\<rparr>) (xs @ [x]) \<and> freed h2 = freed h \<and>
         unat (size_v v) < unat (capacity v) \<and>
         unat (size_v v + 1) = Suc (unat (size_v v))"
proof -
  from r obtain cells where c: "blocks h (data v) = Some cells"
    "length cells = unat (capacity v)" "length xs = unat (size_v v)"
    "length xs \<le> length cells"
    "take (length xs) cells = map Some xs" "data v < brk h"
    by (rule reprE)
  from ok c(1) have lt: "unat (size_v v) < length cells"
    and h2: "h2 = h\<lparr>blocks := (blocks h)(data v \<mapsto> cells[unat (size_v v) := Some x])\<rparr>"
    by (auto simp: store_def split: if_splits)
  have "unat (size_v v) < unat (- 1 :: u32)"
    using lt c(2) word_le_nat_alt [of "capacity v" "- 1"] by simp
  then have "size_v v \<noteq> - 1" by auto
  then have "1 + size_v v \<noteq> 0"
    by (metis add_eq_0_iff)
  then have "unat (1 + size_v v) = Suc (unat (size_v v))"
    by (rule unatSuc)
  then have inc: "unat (size_v v + 1) = Suc (unat (size_v v))"
    by (simp add: add.commute)
  have tk: "take (Suc (length xs)) (cells[length xs := Some x]) = map Some xs @ [Some x]"
    using lt c(3,5) by (simp add: take_Suc_conv_app_nth)
  show ?thesis
    using c lt inc tk unfolding h2 by (simp add: repr_def)
qed

lemma push_T_vector_repr:
  assumes r: "repr h v xs" and ok: "push_T_vector v h x = Inr (v', h')"
  shows "repr h' v' (xs @ [x]) \<and> size_v v' = size_v v + 1 \<and>
         capacity v' = (if size_v v = capacity v then max 1 (capacity v * 2) else capacity v) \<and>
         data_size v' = data_size v \<and> vector.more v' = vector.more v"
proof (cases "size_v v = capacity v")
  case False
  with ok obtain h2 where s: "store h (data v) (unat (size_v v)) x = Inr h2"
    and eq: "v' = v\<lparr>size_v := size_v v + 1\<rparr>" "h' = h2"
    by (auto simp: push_T_vector_def split: sum.splits)
  from store_repr [OF r s] False show ?thesis unfolding eq by simp
next
  case True
  with ok obtain v1 h1 h2 where rs: "vector_resize v h = Inr (v1, h1)"
    and s: "store h1 (data v1) (unat (size_v v1)) x = Inr h2"
    and eq: "v' = v1\<lparr>size_v := size_v v1 + 1\<rparr>" "h' = h2"
    by (auto simp: push_T_vector_def split: sum.splits)
  from vector_resize_repr [OF r rs] have r1: "repr h1 v1 xs"
    and f: "capacity v1 = max 1 (capacity v * 2)" "size_v v1 = size_v v"
      "data_size v1 = data_size v" "vector.more v1 = vector.more v"
    by simp_all
  from store_repr [OF r1 s] True f show ?thesis unfolding eq by simp
qed

lemma push_T_ptr_vector_repr:
  assumes r: "repr h v xs" and ok: "push_T_ptr_vector v h x = Inr (v', h')"
  shows "repr h' v' (xs @ [x]) \<and> size_v v' = size_v v + 1 \<and>
         capacity v' = (if size_v v = capacity v then max 1 (capacity v * 2) else capacity v) \<and>
         data_size v' = data_size v \<and> vector.more v' = vector.more v"
proof (cases "size_v v = capacity v")
  case False
  with ok obtain h2 where s: "store h (data v) (unat (size_v v)) x = Inr h2"
    and eq: "v' = v\<lparr>size_v := size_v v + 1\<rparr>" "h' = h2"
    by (auto simp: push_T_ptr_vector_def split: sum.splits)
  from store_repr [OF r s] False show ?thesis unfolding eq by simp
next
  case True
  with ok obtain v1 h1 h2 where rs: "vector_resize v h = Inr (v1, h1)"
    and s: "store h1 (data v1) (unat (size_v v1)) x = Inr h2"
    and eq: "v' = v1\<lparr>size_v := size_v v1 + 1\<rparr>" "h' = h2"
    by (auto simp: push_T_ptr_vector_def split: sum.splits)
  from vector_resize_repr [OF r rs] have r1: "repr h1 v1 xs"
    and f: "capacity v1 = max 1 (capacity v * 2)" "size_v v1 = size_v v"
      "data_size v1 = data_size v" "vector.more v1 = vector.more v"
    by simp_all
  from store_repr [OF r1 s] True f show ?thesis unfolding eq by simp
qed

text \<open>A constructed vector is well formed and empty.\<close>

lemma new_T_vector_repr:
  assumes "new_T_vector s1 s2 h = Inr (v, h')"
  shows "repr h' v [] \<and> capacity v = 1 \<and> size_v v = 0 \<and> data_size v = s2"
  using assms
  by (auto simp: new_T_vector_def new_vector_def allocate_def repr_def DEFAULT_CAPACITY_def
      vector.extend_def split: option.splits if_splits)

lemma new_T_ptr_vector_repr:
  assumes "new_T_ptr_vector s1 s2 b h = Inr (v, h')"
  shows "repr h' v [] \<and> capacity v = 1 \<and> size_v v = 0 \<and> data_size v = s2 \<and> own_ptrs v = b"
  using assms
  by (auto simp: new_T_ptr_vector_def new_vector_def allocate_def repr_def DEFAULT_CAPACITY_def
      vector.extend_def T_ptr_vector.fields_def split: option.splits if_splits)

lemma store_last_id:
  assumes "repr h v (xs @ [x])"
  shows "store h (data v) (length xs) x = Inr h"
proof -
  from assms obtain cells where c: "blocks h (data v) = Some cells"
    "take (length (xs @ [x])) cells = map Some (xs @ [x])"
    by (rule reprE)
  have t: "cells ! length xs = Some x \<and> length xs < length cells"
    using take_snoc_nth [of "length xs" cells xs x] c(2) by simp
  then have "cells[length xs := Some x] = cells"
    by (metis list_update_id)
  moreover have "(blocks h)(data v \<mapsto> cells) = blocks h"
    using c(1) by (simp add: fun_upd_idem)
  ultimately show ?thesis
    using c(1) t by (simp add: store_def)
qed

section \<open>Pop followed by push\<close>

text \<open>
  C10. A vector that is well formed and holds at least one element (so \<^verbatim>\<open>size >= 1\<close> and
  \<^verbatim>\<open>size <= capacity\<close>): pop returns a value \<open>x\<close> and leaves \<^verbatim>\<open>size\<close> different from
  \<^verbatim>\<open>capacity\<close>, so the push that follows does not grow; pushing \<open>x\<close> back gives the struct
  and the heap that were there before the pop, hence the same size, the same capacity and
  the same elements.
\<close>

theorem pop_push_round_trip:
  assumes "repr h v ys" and "ys \<noteq> []"
  shows "\<exists>v1 x. pop_T_vector v h = (v1, Inr x) \<and>
           unat (size_v v1) < unat (capacity v1) \<and> size_v v1 \<noteq> capacity v1 \<and>
           push_T_vector v1 h x = Inr (v, h) \<and> repr h v ys"
proof -
  from assms(2) obtain xs x where ys: "ys = xs @ [x]"
    by (cases ys rule: rev_cases) auto
  have r: "repr h v (xs @ [x])" using assms(1) ys by simp
  let ?v1 = "v\<lparr>size_v := size_v v - 1\<rparr>"
  from load_last_repr [OF r] have nz: "size_v v \<noteq> 0"
    and dec: "unat (size_v v - 1) = length xs" by simp_all
  from pop_T_vector_repr [OF r] have p: "pop_T_vector v h = (?v1, Inr x)" by simp
  have "length (xs @ [x]) \<le> unat (capacity v)"
    using repr_size_le_capacity [OF r] r by (auto elim: reprE)
  then have lt: "unat (size_v ?v1) < unat (capacity ?v1)"
    using dec by simp
  then have ne: "size_v ?v1 \<noteq> capacity ?v1" by auto
  have "push_T_vector ?v1 h x = Inr (?v1\<lparr>size_v := size_v ?v1 + 1\<rparr>, h)"
    using ne store_last_id [OF r] dec by (simp add: push_T_vector_def)
  then have "push_T_vector ?v1 h x = Inr (v, h)" by simp
  with p lt ne assms(1) show ?thesis by blast
qed

theorem pop_push_round_trip_witness:
  "\<exists>v h v1 x. new_T_vector 28 4 (arena 100) = Inr (v, h) \<and>
     (\<exists>v' h'. push_T_vector v h (7 :: int) = Inr (v', h') \<and>
        pop_T_vector v' h' = (v1, Inr x) \<and> push_T_vector v1 h' x = Inr (v', h'))"
proof -
  obtain v h where n: "new_T_vector 28 4 (arena 100 :: int heap) = Inr (v, h)"
    by (simp add: new_T_vector_def new_vector_def allocate_def arena_def DEFAULT_CAPACITY_def)
  obtain v' h' where p: "push_T_vector v h (7 :: int) = Inr (v', h')"
    using n
    by (auto simp: new_T_vector_def new_vector_def allocate_def arena_def DEFAULT_CAPACITY_def
        push_T_vector_def store_def vector.extend_def)
  from new_T_vector_repr [OF n] have "repr h v []" by simp
  from push_T_vector_repr [OF this p] have r: "repr h' v' [7]" by simp
  from pop_push_round_trip [OF r] n p show ?thesis by blast
qed

text \<open>A push into a vector that is not full writes one slot and does nothing else to the heap.\<close>

lemma store_in_capacity:
  assumes r: "repr h v xs" and lt: "unat (size_v v) < unat (capacity v)"
  shows "\<exists>h2. store h (data v) (unat (size_v v)) y = Inr h2 \<and>
           repr h2 (v\<lparr>size_v := size_v v + 1\<rparr>) (xs @ [y]) \<and>
           brk h2 = brk h \<and> avail h2 = avail h \<and> freed h2 = freed h"
proof -
  from r obtain cells where c: "blocks h (data v) = Some cells"
    "length cells = unat (capacity v)"
    by (rule reprE)
  let ?h2 = "h\<lparr>blocks := (blocks h)(data v \<mapsto> cells[unat (size_v v) := Some y])\<rparr>"
  have s: "store h (data v) (unat (size_v v)) y = Inr ?h2"
    using c lt by (simp add: store_def)
  from store_repr [OF r s] have "repr ?h2 (v\<lparr>size_v := size_v v + 1\<rparr>) (xs @ [y])"
    by simp
  with s show ?thesis by simp
qed

lemma push_T_vector_in_capacity:
  assumes r: "repr h v xs" and lt: "unat (size_v v) < unat (capacity v)"
  shows "\<exists>h2. push_T_vector v h y = Inr (v\<lparr>size_v := size_v v + 1\<rparr>, h2) \<and>
           repr h2 (v\<lparr>size_v := size_v v + 1\<rparr>) (xs @ [y]) \<and>
           brk h2 = brk h \<and> avail h2 = avail h \<and> freed h2 = freed h"
proof -
  from lt have ne: "size_v v \<noteq> capacity v" by auto
  from store_in_capacity [OF r lt, of y] obtain h2 where
    s: "store h (data v) (unat (size_v v)) y = Inr h2"
    and rest: "repr h2 (v\<lparr>size_v := size_v v + 1\<rparr>) (xs @ [y])"
      "brk h2 = brk h" "avail h2 = avail h" "freed h2 = freed h"
    by blast
  have "push_T_vector v h y = Inr (v\<lparr>size_v := size_v v + 1\<rparr>, h2)"
    using ne s by (simp add: push_T_vector_def)
  with rest show ?thesis by blast
qed

lemma push_T_ptr_vector_in_capacity:
  assumes r: "repr h v xs" and lt: "unat (size_v v) < unat (capacity v)"
  shows "\<exists>h2. push_T_ptr_vector v h y = Inr (v\<lparr>size_v := size_v v + 1\<rparr>, h2) \<and>
           repr h2 (v\<lparr>size_v := size_v v + 1\<rparr>) (xs @ [y]) \<and>
           brk h2 = brk h \<and> avail h2 = avail h \<and> freed h2 = freed h"
proof -
  from lt have ne: "size_v v \<noteq> capacity v" by auto
  from store_in_capacity [OF r lt, of y] obtain h2 where
    s: "store h (data v) (unat (size_v v)) y = Inr h2"
    and rest: "repr h2 (v\<lparr>size_v := size_v v + 1\<rparr>) (xs @ [y])"
      "brk h2 = brk h" "avail h2 = avail h" "freed h2 = freed h"
    by blast
  have "push_T_ptr_vector v h y = Inr (v\<lparr>size_v := size_v v + 1\<rparr>, h2)"
    using ne s by (simp add: push_T_ptr_vector_def)
  with rest show ?thesis by blast
qed

text \<open>What the struct and the heap look like after a pop of a non-empty vector.\<close>

lemma after_pop:
  assumes r: "repr h v (xs @ [x])"
  shows "0 < unat (size_v v) \<and> unat (size_v v - 1) = unat (size_v v) - 1 \<and>
         load h (data v) (unat (size_v v) - 1) = Inr x \<and>
         repr h (v\<lparr>size_v := size_v v - 1\<rparr>) xs \<and>
         unat (size_v (v\<lparr>size_v := size_v v - 1\<rparr>)) < unat (capacity (v\<lparr>size_v := size_v v - 1\<rparr>))"
proof -
  from load_last_repr [OF r] have nz: "size_v v \<noteq> 0"
    and dec: "unat (size_v v - 1) = length xs"
    and ld: "load h (data v) (unat (size_v v - 1)) = Inr x"
    and r1: "repr h (v\<lparr>size_v := size_v v - 1\<rparr>) xs" by auto
  have sz: "unat (size_v v) = Suc (length xs)"
    using r by (auto elim: reprE)
  have "unat (size_v v) \<le> unat (capacity v)"
    by (rule repr_size_le_capacity [OF r])
  with sz dec ld r1 show ?thesis by simp
qed

section \<open>Pop\<close>

text \<open>
  C5. A well-formed vector whose last element is \<open>x\<close> (so \<^verbatim>\<open>size > 0\<close>), of values or of
  pointers. Pop leaves the struct with \<^verbatim>\<open>size\<close> one less and nothing else changed, and
  returns \<open>x\<close>, the element at the old index \<^verbatim>\<open>size - 1\<close>. Pop writes nothing to the heap
  and calls no \<^verbatim>\<open>kfree\<close>: the heap after it is the heap before it, where that slot still
  holds \<open>x\<close>. Any push that follows finds room: it does not allocate or free, it stays in
  the same buffer with the same capacity, and it puts its value in the vacated slot.
\<close>

theorem pop_postcondition:
  "(repr h v (xs @ [x]) \<longrightarrow>
      (case pop_T_vector v h of (v1, r) \<Rightarrow>
         r = Inr x \<and> v1 = v\<lparr>size_v := size_v v - 1\<rparr> \<and>
         0 < unat (size_v v) \<and> unat (size_v v1) = unat (size_v v) - 1 \<and>
         load h (data v) (unat (size_v v) - 1) = Inr x \<and>
         (\<forall>y. \<exists>h'. push_T_vector v1 h y = Inr (v, h') \<and> repr h' v (xs @ [y]) \<and>
                 brk h' = brk h \<and> avail h' = avail h \<and> freed h' = freed h))) \<and>
   (repr g w (ps @ [p]) \<longrightarrow>
      (case pop_T_ptr_vector w g of (w1, r) \<Rightarrow>
         r = Inr p \<and> w1 = w\<lparr>size_v := size_v w - 1\<rparr> \<and>
         0 < unat (size_v w) \<and> unat (size_v w1) = unat (size_v w) - 1 \<and>
         load g (data w) (unat (size_v w) - 1) = Inr p \<and>
         (\<forall>q. \<exists>g'. push_T_ptr_vector w1 g q = Inr (w, g') \<and> repr g' w (ps @ [q]) \<and>
                 brk g' = brk g \<and> avail g' = avail g \<and> freed g' = freed g)))"
proof (intro conjI impI)
  assume r: "repr h v (xs @ [x])"
  let ?v1 = "v\<lparr>size_v := size_v v - 1\<rparr>"
  from pop_T_vector_repr [OF r] have p: "pop_T_vector v h = (?v1, Inr x)" by simp
  from after_pop [OF r] have a: "0 < unat (size_v v)"
    "unat (size_v v - 1) = unat (size_v v) - 1"
    "load h (data v) (unat (size_v v) - 1) = Inr x"
    "repr h ?v1 xs" "unat (size_v ?v1) < unat (capacity ?v1)" by simp_all
  have "\<exists>h'. push_T_vector ?v1 h y = Inr (v, h') \<and> repr h' v (xs @ [y]) \<and>
          brk h' = brk h \<and> avail h' = avail h \<and> freed h' = freed h" for y
    using push_T_vector_in_capacity [OF a(4) a(5), of y] by simp
  with p a show "case pop_T_vector v h of (v1, r) \<Rightarrow>
         r = Inr x \<and> v1 = v\<lparr>size_v := size_v v - 1\<rparr> \<and>
         0 < unat (size_v v) \<and> unat (size_v v1) = unat (size_v v) - 1 \<and>
         load h (data v) (unat (size_v v) - 1) = Inr x \<and>
         (\<forall>y. \<exists>h'. push_T_vector v1 h y = Inr (v, h') \<and> repr h' v (xs @ [y]) \<and>
                 brk h' = brk h \<and> avail h' = avail h \<and> freed h' = freed h)"
    by simp
next
  assume r: "repr g w (ps @ [p])"
  let ?w1 = "w\<lparr>size_v := size_v w - 1\<rparr>"
  from pop_T_ptr_vector_repr [OF r] have p: "pop_T_ptr_vector w g = (?w1, Inr p)" by simp
  from after_pop [OF r] have a: "0 < unat (size_v w)"
    "unat (size_v w - 1) = unat (size_v w) - 1"
    "load g (data w) (unat (size_v w) - 1) = Inr p"
    "repr g ?w1 ps" "unat (size_v ?w1) < unat (capacity ?w1)" by simp_all
  have "\<exists>g'. push_T_ptr_vector ?w1 g q = Inr (w, g') \<and> repr g' w (ps @ [q]) \<and>
          brk g' = brk g \<and> avail g' = avail g \<and> freed g' = freed g" for q
    using push_T_ptr_vector_in_capacity [OF a(4) a(5), of q] by simp
  with p a show "case pop_T_ptr_vector w g of (w1, r) \<Rightarrow>
         r = Inr p \<and> w1 = w\<lparr>size_v := size_v w - 1\<rparr> \<and>
         0 < unat (size_v w) \<and> unat (size_v w1) = unat (size_v w) - 1 \<and>
         load g (data w) (unat (size_v w) - 1) = Inr p \<and>
         (\<forall>q. \<exists>g'. push_T_ptr_vector w1 g q = Inr (w, g') \<and> repr g' w (ps @ [q]) \<and>
                 brk g' = brk g \<and> avail g' = avail g \<and> freed g' = freed g)"
    by simp
qed
section \<open>The capacity is a power of two\<close>

lemma double_capacity_pow2:
  fixes c :: u32
  assumes "unat c = 2 ^ k" and "k \<le> 31"
  shows "\<exists>j\<le>31. unat (max 1 (c * 2)) = 2 ^ j"
proof (cases "k = 31")
  case True
  have "unat (c * 2) = (unat c * 2) mod 2 ^ 32"
    by (simp add: unat_word_ariths)
  also have "\<dots> = 0" using assms(1) True by simp
  finally have "c * 2 = 0" by (simp add: unat_eq_0)
  then have "unat (max 1 (c * 2)) = 2 ^ 0" by simp
  then show ?thesis by blast
next
  case False
  with assms(2) have k: "Suc k \<le> 31" by simp
  have "(2::nat) ^ Suc k \<le> 2 ^ 31"
    using k by (intro power_increasing) simp_all
  then have lt: "(2::nat) ^ Suc k < 2 ^ 32" by simp
  have "unat (c * 2) = (unat c * 2) mod 2 ^ 32"
    by (simp add: unat_word_ariths)
  also have "\<dots> = 2 ^ Suc k" using assms(1) lt by simp
  finally have u: "unat (c * 2) = 2 ^ Suc k" .
  then have "unat (1 :: u32) \<le> unat (c * 2)" by simp
  then have "1 \<le> c * 2" by (simp add: word_le_nat_alt)
  then have "max 1 (c * 2) = c * 2" by (simp add: max_def)
  with u k show ?thesis by metis
qed

lemma vector_resize_capacity:
  assumes "vector_resize v h = Inr (v', h')"
  shows "capacity v' = max 1 (capacity v * 2) \<and> size_v v' = size_v v"
  using assms
  by (auto simp: vector_resize_def Let_def split: option.splits if_splits)

lemma push_T_vector_capacity:
  assumes "push_T_vector v h x = Inr (v', h')"
  shows "capacity v' = (if size_v v = capacity v then max 1 (capacity v * 2) else capacity v)"
proof (cases "size_v v = capacity v")
  case False
  with assms show ?thesis
    by (auto simp: push_T_vector_def split: sum.splits)
next
  case True
  with assms obtain v1 h1 where rs: "vector_resize v h = Inr (v1, h1)"
    and eq: "v' = v1\<lparr>size_v := size_v v1 + 1\<rparr>"
    by (auto simp: push_T_vector_def split: sum.splits)
  from vector_resize_capacity [OF rs] True show ?thesis unfolding eq by simp
qed

lemma run_capacity_pow2:
  assumes "run v h ops = Inr (v', h')" and "\<exists>k\<le>31. unat (capacity v) = 2 ^ k"
  shows "\<exists>k\<le>31. unat (capacity v') = 2 ^ k"
  using assms
proof (induction v h ops rule: run.induct)
  case (1 vect h)
  then show ?case by simp
next
  case (2 vect h x ops)
  from "2.prems"(1) obtain v1 h1 where p: "push_T_vector vect h x = Inr (v1, h1)"
    and rest: "run v1 h1 ops = Inr (v', h')"
    by (auto split: sum.splits)
  have "\<exists>k\<le>31. unat (capacity v1) = 2 ^ k"
    using push_T_vector_capacity [OF p] "2.prems"(2) double_capacity_pow2
    by (cases "size_v vect = capacity vect") auto
  with "2.IH" p rest show ?case by simp
next
  case (3 vect h ops)
  then show ?case by (simp add: pop_T_vector_def Let_def)
qed

section \<open>Pop of an empty vector\<close>

text \<open>
  C9. A vector that the library has produced (constructed, then any pushes and pops) and
  that holds nothing, \<^verbatim>\<open>size = 0\<close>: pop makes no test, and its \<^verbatim>\<open>size--\<close> on the
  \<^verbatim>\<open>uint32_t\<close> field leaves \<^verbatim>\<open>size = 4294967295\<close>, which is \<open>2\<^sup>3\<^sup>2 - 1\<close>. The capacity is
  untouched; it is a power of two of at most \<open>2\<^sup>3\<^sup>1\<close>, so \<^verbatim>\<open>size <= capacity\<close> no longer
  holds.
\<close>

theorem pop_empty_underflow:
  assumes "new_T_vector sizeof_struct sizeof_T h0 = Inr (v0, h1)"
    and "run v0 h1 ops = Inr (v, h)"
    and "size_v v = 0"
  shows "size_v (fst (pop_T_vector v h)) = 4294967295 \<and>
         unat (size_v (fst (pop_T_vector v h))) = 2 ^ 32 - 1 \<and>
         capacity (fst (pop_T_vector v h)) = capacity v \<and>
         \<not> unat (size_v (fst (pop_T_vector v h))) \<le> unat (capacity (fst (pop_T_vector v h)))"
proof -
  from new_T_vector_repr [OF assms(1)] have "unat (capacity v0) = 2 ^ 0" by simp
  then have "\<exists>k\<le>31. unat (capacity v0) = 2 ^ k" by blast
  from run_capacity_pow2 [OF assms(2) this] obtain k where k: "k \<le> 31"
    "unat (capacity v) = 2 ^ k" by blast
  have "(2::nat) ^ k \<le> 2 ^ 31"
    using k(1) by (intro power_increasing) simp_all
  with k(2) have c: "unat (capacity v) \<le> 2147483648" by simp
  have s: "size_v (fst (pop_T_vector v h)) = 4294967295"
    using assms(3) by (simp add: pop_T_vector_def Let_def)
  have cap: "capacity (fst (pop_T_vector v h)) = capacity v"
    by (simp add: pop_T_vector_def Let_def)
  from s have u: "unat (size_v (fst (pop_T_vector v h))) = 4294967295" by simp
  from s u cap c show ?thesis by simp
qed

theorem pop_empty_underflow_witness:
  "\<exists>v0 h1. new_T_vector 28 4 (arena 100 :: int heap) = Inr (v0, h1) \<and>
     run v0 h1 [] = Inr (v0, h1) \<and> size_v v0 = 0 \<and>
     size_v (fst (pop_T_vector v0 h1)) = 4294967295 \<and>
     \<not> unat (size_v (fst (pop_T_vector v0 h1))) \<le> unat (capacity (fst (pop_T_vector v0 h1)))"
proof -
  obtain v0 h1 where n: "new_T_vector 28 4 (arena 100 :: int heap) = Inr (v0, h1)"
    by (simp add: new_T_vector_def new_vector_def allocate_def arena_def DEFAULT_CAPACITY_def)
  have r: "run v0 h1 [] = Inr (v0, h1)" by simp
  from new_T_vector_repr [OF n] have z: "size_v v0 = 0" by simp
  from pop_empty_underflow [OF n r z] n r z show ?thesis by blast
qed

theorem pop_postcondition_witness:
  "\<exists>v h w g. repr h v ([] @ [7 :: int]) \<and> pop_T_vector v h = (v\<lparr>size_v := size_v v - 1\<rparr>, Inr 7) \<and>
     repr g w ([] @ [9]) \<and> pop_T_ptr_vector w g = (w\<lparr>size_v := size_v w - 1\<rparr>, Inr 9)"
proof -
  obtain v0 h0 where n: "new_T_vector 28 4 (arena 100 :: int heap) = Inr (v0, h0)"
    by (simp add: new_T_vector_def new_vector_def allocate_def arena_def DEFAULT_CAPACITY_def)
  obtain v h where p: "push_T_vector v0 h0 (7 :: int) = Inr (v, h)"
    using n
    by (auto simp: new_T_vector_def new_vector_def allocate_def arena_def DEFAULT_CAPACITY_def
        push_T_vector_def store_def vector.extend_def)
  from new_T_vector_repr [OF n] have "repr h0 v0 []" by simp
  from push_T_vector_repr [OF this p] have r: "repr h v ([] @ [7])" by simp
  obtain w0 g0 where m: "new_T_ptr_vector 32 4 True (arena 100) = Inr (w0, g0)"
    by (simp add: new_T_ptr_vector_def new_vector_def allocate_def arena_def DEFAULT_CAPACITY_def)
  obtain w g where q: "push_T_ptr_vector w0 g0 9 = Inr (w, g)"
    using m
    by (auto simp: new_T_ptr_vector_def new_vector_def allocate_def arena_def DEFAULT_CAPACITY_def
        push_T_ptr_vector_def store_def vector.extend_def)
  from new_T_ptr_vector_repr [OF m] have "repr g0 w0 []" by simp
  from push_T_ptr_vector_repr [OF this q] have s: "repr g w ([] @ [9])" by simp
  from pop_postcondition [of h v "[]" 7 g w "[]" 9] r s
  have "pop_T_vector v h = (v\<lparr>size_v := size_v v - 1\<rparr>, Inr 7)"
    and "pop_T_ptr_vector w g = (w\<lparr>size_v := size_v w - 1\<rparr>, Inr 9)"
    by (auto split: prod.splits)
  with r s show ?thesis by blast
qed

section \<open>Construction\<close>

lemma push_T_ptr_vector_own_ptrs:
  assumes "push_T_ptr_vector v h x = Inr (v', h')"
  shows "own_ptrs v' = own_ptrs v"
  using assms
  by (auto simp: push_T_ptr_vector_def vector_resize_def Let_def
      split: sum.splits if_splits option.splits)

lemma run_ptr_own_ptrs:
  assumes "run_ptr v h ops = Inr (v', h')"
  shows "own_ptrs v' = own_ptrs v"
  using assms
proof (induction v h ops rule: run_ptr.induct)
  case (1 vect h)
  then show ?case by simp
next
  case (2 vect h x ops)
  from "2.prems" obtain v1 h1 where p: "push_T_ptr_vector vect h x = Inr (v1, h1)"
    and rest: "run_ptr v1 h1 ops = Inr (v', h')"
    by (auto split: sum.splits)
  from "2.IH" [OF p refl rest] push_T_ptr_vector_own_ptrs [OF p] show ?case by simp
next
  case (3 vect h ops)
  then show ?case by (simp add: pop_T_ptr_vector_def Let_def)
qed

text \<open>
  C8. When the allocator can provide the bytes of one element, the constructor of a vector
  of values and the constructor of a vector of pointers each return a vector with
  \<^verbatim>\<open>size = 0\<close> and \<^verbatim>\<open>capacity = DEFAULT_CAPACITY\<close>, which is 1, whose buffer is a new block
  of one slot, not yet written, taken from the arena. For the pointer variant \<^verbatim>\<open>own_ptrs\<close>
  is the boolean passed to the constructor, and it is still that boolean after any
  sequence of pushes and pops.
\<close>

theorem construction_postcondition:
  "DEFAULT_CAPACITY = 1 \<and>
   (sizeof_T \<le> avail h \<longrightarrow>
      (\<exists>v h'. new_T_vector sizeof_struct sizeof_T h = Inr (v, h') \<and>
         size_v v = 0 \<and> capacity v = DEFAULT_CAPACITY \<and> data_size v = sizeof_T \<and>
         blocks h' (data v) = Some [None] \<and> blocks h (data v) = blocks h (brk h) \<and>
         avail h' = avail h - sizeof_T \<and> repr h' v [])) \<and>
   (sizeof_ptr \<le> avail g \<longrightarrow>
      (\<exists>w g'. new_T_ptr_vector sizeof_ptr_struct sizeof_ptr b g = Inr (w, g') \<and>
         size_v w = 0 \<and> capacity w = DEFAULT_CAPACITY \<and> data_size w = sizeof_ptr \<and>
         blocks g' (data w) = Some [None] \<and>
         avail g' = avail g - sizeof_ptr \<and> repr g' w [] \<and>
         own_ptrs w = b \<and>
         (\<forall>ops w' g''. run_ptr w g' ops = Inr (w', g'') \<longrightarrow> own_ptrs w' = b)))"
proof (intro conjI impI)
  show "DEFAULT_CAPACITY = 1" by (simp add: DEFAULT_CAPACITY_def)
next
  assume a: "sizeof_T \<le> avail h"
  then obtain v h' where n: "new_T_vector sizeof_struct sizeof_T h = Inr (v, h')"
    by (simp add: new_T_vector_def new_vector_def allocate_def DEFAULT_CAPACITY_def)
  have "size_v v = 0 \<and> capacity v = DEFAULT_CAPACITY \<and> data_size v = sizeof_T \<and>
        blocks h' (data v) = Some [None] \<and> blocks h (data v) = blocks h (brk h) \<and>
        avail h' = avail h - sizeof_T"
    using n a
    by (auto simp: new_T_vector_def new_vector_def allocate_def DEFAULT_CAPACITY_def
        vector.extend_def split: if_splits)
  with n new_T_vector_repr [OF n]
  show "\<exists>v h'. new_T_vector sizeof_struct sizeof_T h = Inr (v, h') \<and>
         size_v v = 0 \<and> capacity v = DEFAULT_CAPACITY \<and> data_size v = sizeof_T \<and>
         blocks h' (data v) = Some [None] \<and> blocks h (data v) = blocks h (brk h) \<and>
         avail h' = avail h - sizeof_T \<and> repr h' v []"
    by blast
next
  assume a: "sizeof_ptr \<le> avail g"
  then obtain w g' where n: "new_T_ptr_vector sizeof_ptr_struct sizeof_ptr b g = Inr (w, g')"
    by (simp add: new_T_ptr_vector_def new_vector_def allocate_def DEFAULT_CAPACITY_def)
  have 1: "size_v w = 0 \<and> capacity w = DEFAULT_CAPACITY \<and> data_size w = sizeof_ptr \<and>
        blocks g' (data w) = Some [None] \<and> avail g' = avail g - sizeof_ptr"
    using n a
    by (auto simp: new_T_ptr_vector_def new_vector_def allocate_def DEFAULT_CAPACITY_def
        vector.extend_def split: if_splits)
  from new_T_ptr_vector_repr [OF n] have 2: "repr g' w []" "own_ptrs w = b" by simp_all
  have 3: "\<forall>ops w' g''. run_ptr w g' ops = Inr (w', g'') \<longrightarrow> own_ptrs w' = b"
    using run_ptr_own_ptrs 2(2) by blast
  from n 1 2 3
  show "\<exists>w g'. new_T_ptr_vector sizeof_ptr_struct sizeof_ptr b g = Inr (w, g') \<and>
         size_v w = 0 \<and> capacity w = DEFAULT_CAPACITY \<and> data_size w = sizeof_ptr \<and>
         blocks g' (data w) = Some [None] \<and>
         avail g' = avail g - sizeof_ptr \<and> repr g' w [] \<and>
         own_ptrs w = b \<and>
         (\<forall>ops w' g''. run_ptr w g' ops = Inr (w', g'') \<longrightarrow> own_ptrs w' = b)"
    by blast
qed

theorem construction_postcondition_witness:
  "(4::nat) \<le> avail (arena 100 :: int heap) \<and>
   (\<exists>v h'. new_T_vector 28 4 (arena 100 :: int heap) = Inr (v, h') \<and>
      size_v v = 0 \<and> capacity v = 1) \<and>
   (4::nat) \<le> avail (arena 100 :: addr heap) \<and>
   (\<exists>w g'. new_T_ptr_vector 32 4 True (arena 100) = Inr (w, g') \<and>
      size_v w = 0 \<and> capacity w = 1 \<and> own_ptrs w \<and>
      (\<forall>w' g''. run_ptr w g' [Push 9, Pop] = Inr (w', g'') \<longrightarrow> own_ptrs w'))"
proof -
  have a: "(4::nat) \<le> avail (arena 100 :: int heap)" by (simp add: arena_def)
  have b: "(4::nat) \<le> avail (arena 100 :: addr heap)" by (simp add: arena_def)
  have d: "DEFAULT_CAPACITY = 1" by (simp add: DEFAULT_CAPACITY_def)
  from construction_postcondition
    [of 4 "arena 100 :: int heap" 28 4 "arena 100 :: addr heap" 32 True] a
  obtain v h' where v: "new_T_vector 28 4 (arena 100 :: int heap) = Inr (v, h')"
    "size_v v = 0" "capacity v = DEFAULT_CAPACITY"
    by blast
  from construction_postcondition
    [of 4 "arena 100 :: int heap" 28 4 "arena 100 :: addr heap" 32 True] b
  obtain w g' where w: "new_T_ptr_vector 32 4 True (arena 100) = Inr (w, g')"
    "size_v w = 0" "capacity w = DEFAULT_CAPACITY" "own_ptrs w = True"
    "\<forall>ops w' g''. run_ptr w g' ops = Inr (w', g'') \<longrightarrow> own_ptrs w' = True"
    by blast
  from w(5) have "\<forall>w' g''. run_ptr w g' [Push 9, Pop] = Inr (w', g'') \<longrightarrow> own_ptrs w'"
    by blast
  with a b v w d show ?thesis by (metis (full_types))
qed

text \<open>
  C7, as the code has it. When the allocator cannot satisfy the request for the buffer,
  \<^verbatim>\<open>new_vector\<close> reports it by the null pointer, and the generated constructors store the
  function pointers through that result without testing it: a null dereference, not an
  allocation failure handed to the caller. When the request is granted the vector that
  is returned is completely set up: size 0, capacity 1, the element size, its buffer,
  \<^verbatim>\<open>own_ptrs\<close> and the three function pointers.
\<close>

theorem construction_failure_unchecked:
  "(allocate h (unat DEFAULT_CAPACITY) sizeof_T = None \<longrightarrow>
      new_vector sizeof_struct sizeof_T h = None \<and>
      new_T_vector sizeof_struct sizeof_T h = Inl Null_deref) \<and>
   (allocate g (unat DEFAULT_CAPACITY) sizeof_ptr = None \<longrightarrow>
      new_vector sizeof_ptr_struct sizeof_ptr g = None \<and>
      new_T_ptr_vector sizeof_ptr_struct sizeof_ptr b g = Inl Null_deref) \<and>
   (\<forall>p h1. allocate h (unat DEFAULT_CAPACITY) sizeof_T = Some (p, h1) \<longrightarrow>
      (\<exists>v. new_T_vector sizeof_struct sizeof_T h = Inr (v, h1) \<and>
         size_v v = 0 \<and> capacity v = 1 \<and> data_size v = sizeof_T \<and> data v = p \<and>
         T_vector.delete v = Fn_delete_T_vector \<and> T_vector.push v = Fn_push_T_vector \<and>
         T_vector.pop v = Fn_pop_T_vector)) \<and>
   (\<forall>p g1. allocate g (unat DEFAULT_CAPACITY) sizeof_ptr = Some (p, g1) \<longrightarrow>
      (\<exists>w. new_T_ptr_vector sizeof_ptr_struct sizeof_ptr b g = Inr (w, g1) \<and>
         size_v w = 0 \<and> capacity w = 1 \<and> data_size w = sizeof_ptr \<and> data w = p \<and>
         own_ptrs w = b \<and>
         T_ptr_vector.delete w = Fn_delete_T_ptr_vector \<and>
         T_ptr_vector.push w = Fn_push_T_ptr_vector \<and>
         T_ptr_vector.pop w = Fn_pop_T_ptr_vector))"
  by (simp add: new_T_vector_def new_T_ptr_vector_def new_vector_def DEFAULT_CAPACITY_def
      vector.extend_def T_vector.fields_def T_ptr_vector.fields_def)

theorem construction_failure_unchecked_witness:
  "allocate (arena 2 :: int heap) (unat DEFAULT_CAPACITY) 4 = None \<and>
   new_T_vector 28 4 (arena 2 :: int heap) = Inl Null_deref \<and>
   allocate (arena 2 :: addr heap) (unat DEFAULT_CAPACITY) 4 = None \<and>
   new_T_ptr_vector 32 4 True (arena 2) = Inl Null_deref \<and>
   (\<exists>p h1. allocate (arena 100 :: int heap) (unat DEFAULT_CAPACITY) 4 = Some (p, h1) \<and>
      (\<exists>v. new_T_vector 28 4 (arena 100 :: int heap) = Inr (v, h1) \<and> capacity v = 1)) \<and>
   (\<exists>p g1. allocate (arena 100 :: addr heap) (unat DEFAULT_CAPACITY) 4 = Some (p, g1) \<and>
      (\<exists>w. new_T_ptr_vector 32 4 True (arena 100) = Inr (w, g1) \<and> own_ptrs w))"
proof -
  have f: "allocate (arena 2 :: int heap) (unat DEFAULT_CAPACITY) 4 = None"
    "allocate (arena 2 :: addr heap) (unat DEFAULT_CAPACITY) 4 = None"
    by (simp_all add: allocate_def arena_def DEFAULT_CAPACITY_def)
  obtain p h1 where s: "allocate (arena 100 :: int heap) (unat DEFAULT_CAPACITY) 4 = Some (p, h1)"
    by (simp add: allocate_def arena_def DEFAULT_CAPACITY_def)
  obtain q g1 where t: "allocate (arena 100 :: addr heap) (unat DEFAULT_CAPACITY) 4 = Some (q, g1)"
    by (simp add: allocate_def arena_def DEFAULT_CAPACITY_def)
  from construction_failure_unchecked
    [of "arena 2 :: int heap" 4 28 "arena 2 :: addr heap" 4 32 True] f
  have 1: "new_T_vector 28 4 (arena 2 :: int heap) = Inl Null_deref"
    "new_T_ptr_vector 32 4 True (arena 2) = Inl Null_deref"
    by simp_all
  from construction_failure_unchecked
    [of "arena 100 :: int heap" 4 28 "arena 100 :: addr heap" 4 32 True] s t
  have 2: "\<exists>v. new_T_vector 28 4 (arena 100 :: int heap) = Inr (v, h1) \<and> capacity v = 1"
    "\<exists>w. new_T_ptr_vector 32 4 True (arena 100) = Inr (w, g1) \<and> own_ptrs w"
    by auto
  from f s t 1 2 show ?thesis by blast
qed

text \<open>
  C7, as the claim has it, fails: with two bytes left in the arena and elements of four
  bytes the allocator cannot satisfy the request, and what the constructors yield is the
  null dereference, not the allocation failure.
\<close>

theorem construction_failure_counterexample:
  "allocate (arena 2 :: int heap) (unat DEFAULT_CAPACITY) 4 = None \<and>
   new_T_vector 28 4 (arena 2 :: int heap) = Inl Null_deref \<and>
   new_T_vector 28 4 (arena 2 :: int heap) \<noteq> Inl Alloc_failure \<and>
   allocate (arena 2 :: addr heap) (unat DEFAULT_CAPACITY) 4 = None \<and>
   new_T_ptr_vector 32 4 True (arena 2) = Inl Null_deref \<and>
   new_T_ptr_vector 32 4 True (arena 2) \<noteq> Inl Alloc_failure"
  by (simp add: new_T_vector_def new_T_ptr_vector_def new_vector_def allocate_def arena_def
      DEFAULT_CAPACITY_def)

section \<open>Growth\<close>

lemma load_repr:
  assumes r: "repr h v xs" and i: "i < length xs"
  shows "load h (data v) i = Inr (xs ! i)"
proof -
  from r obtain cells where c: "blocks h (data v) = Some cells"
    "length xs \<le> length cells" "take (length xs) cells = map Some xs"
    by (rule reprE)
  have "cells ! i = take (length xs) cells ! i" using i by simp
  also have "\<dots> = Some (xs ! i)" using c(3) i by simp
  finally show ?thesis using c(1,2) i by (simp add: load_def)
qed

lemma store_frame:
  assumes "store h p i x = Inr h2"
  shows "freed h2 = freed h \<and> brk h2 = brk h \<and> avail h2 = avail h \<and>
         (\<forall>q. q \<noteq> p \<longrightarrow> blocks h2 q = blocks h q)"
  using assms by (auto simp: store_def split: option.splits if_splits)

text \<open>
  C6. A well-formed vector holding \<open>xs\<close> with \<^verbatim>\<open>size == capacity\<close>, and a push of \<open>x\<close> that
  completes. The push has grown the vector: the buffer is another block, the one the
  allocator handed out, and the capacity is larger (it is \<^verbatim>\<open>max(1, capacity * 2)\<close>); the
  old buffer has been released, once. Every index below the old \<^verbatim>\<open>size\<close> reads in the new
  buffer what it read in the old one, and the new value is at index \<^verbatim>\<open>size\<close>: the vector
  holds \<open>xs\<close> followed by \<open>x\<close>.
\<close>

theorem growth_preserves_contents:
  assumes r: "repr h v xs" and full: "size_v v = capacity v"
    and ok: "push_T_vector v h x = Inr (v', h')"
  shows "repr h' v' (xs @ [x]) \<and>
         (\<forall>i < unat (size_v v). load h' (data v') i = load h (data v) i \<and>
                                 load h' (data v') i = Inr (xs ! i)) \<and>
         load h' (data v') (unat (size_v v)) = Inr x \<and>
         size_v v' = size_v v + 1 \<and> unat (size_v v') = Suc (unat (size_v v)) \<and>
         capacity v' = max 1 (capacity v * 2) \<and> unat (capacity v) < unat (capacity v') \<and>
         data v' = brk h \<and> data v' \<noteq> data v \<and>
         blocks h' (data v) = None \<and> freed h' = freed h @ [data v]"
proof -
  from ok full obtain v1 h1 h2 where rs: "vector_resize v h = Inr (v1, h1)"
    and s: "store h1 (data v1) (unat (size_v v1)) x = Inr h2"
    and eq: "v' = v1\<lparr>size_v := size_v v1 + 1\<rparr>" "h' = h2"
    by (auto simp: push_T_vector_def split: sum.splits)
  from vector_resize_repr [OF r rs] have r1: "repr h1 v1 xs"
    and f: "capacity v1 = max 1 (capacity v * 2)" "size_v v1 = size_v v"
      "data v1 = brk h" "data v1 \<noteq> data v" "blocks h1 (data v) = None"
      "freed h1 = freed h @ [data v]"
    by simp_all
  from store_repr [OF r1 s] have r2: "repr h' v' (xs @ [x])"
    and lt: "unat (size_v v1) < unat (capacity v1)"
    and inc: "unat (size_v v1 + 1) = Suc (unat (size_v v1))"
    unfolding eq by simp_all
  from store_frame [OF s] f have fr: "freed h' = freed h @ [data v]"
    "blocks h' (data v) = None"
    unfolding eq by auto
  have len: "length xs = unat (size_v v)" using r by (rule reprE)
  have old: "load h (data v) i = Inr (xs ! i)" if "i < unat (size_v v)" for i
    using load_repr [OF r] that len by simp
  have new: "load h' (data v') i = Inr ((xs @ [x]) ! i)" if "i < Suc (unat (size_v v))" for i
    using load_repr [OF r2] that len by simp
  have a: "\<forall>i < unat (size_v v). load h' (data v') i = load h (data v) i \<and>
                                    load h' (data v') i = Inr (xs ! i)"
  proof (intro allI impI)
    fix i assume i: "i < unat (size_v v)"
    then have "load h' (data v') i = Inr (xs ! i)"
      using new [of i] len by (simp add: nth_append)
    with old [OF i] show "load h' (data v') i = load h (data v) i \<and>
                          load h' (data v') i = Inr (xs ! i)" by simp
  qed
  have b: "load h' (data v') (unat (size_v v)) = Inr x"
    using new [of "unat (size_v v)"] len by (simp add: nth_append)
  have c: "size_v v' = size_v v + 1" "unat (size_v v') = Suc (unat (size_v v))"
    "capacity v' = max 1 (capacity v * 2)" "data v' = brk h" "data v' \<noteq> data v"
    using f inc unfolding eq by simp_all
  have d: "unat (capacity v) < unat (capacity v')"
    using lt f(2) full unfolding eq by simp
  from r2 a b c d fr show ?thesis by blast
qed

theorem growth_preserves_contents_witness:
  "\<exists>v h v' h'. repr h v [7 :: int] \<and> size_v v = capacity v \<and>
     push_T_vector v h 8 = Inr (v', h') \<and>
     load h' (data v') 0 = Inr 7 \<and> load h' (data v') 1 = Inr 8 \<and>
     capacity v = 1 \<and> capacity v' = 2"
proof -
  obtain v0 h0 where n: "new_T_vector 28 4 (arena 100 :: int heap) = Inr (v0, h0)"
    by (simp add: new_T_vector_def new_vector_def allocate_def arena_def DEFAULT_CAPACITY_def)
  obtain v h where p: "push_T_vector v0 h0 (7 :: int) = Inr (v, h)"
    using n
    by (auto simp: new_T_vector_def new_vector_def allocate_def arena_def DEFAULT_CAPACITY_def
        push_T_vector_def store_def vector.extend_def)
  from new_T_vector_repr [OF n] have r0: "repr h0 v0 []" and c0: "capacity v0 = 1"
    and s0: "size_v v0 = 0" by simp_all
  from push_T_vector_repr [OF r0 p] c0 s0 have r: "repr h v [7]"
    and c: "capacity v = 1" and sz: "size_v v = 1" by simp_all
  then have full: "size_v v = capacity v" by simp
  obtain v' h' where q: "push_T_vector v h (8 :: int) = Inr (v', h')"
    using n p
    by (auto simp: new_T_vector_def new_vector_def allocate_def arena_def DEFAULT_CAPACITY_def
        push_T_vector_def store_def vector.extend_def vector_resize_def Let_def kfree_def)
  from growth_preserves_contents [OF r full q]
  have g: "\<forall>i < unat (size_v v). load h' (data v') i = load h (data v) i \<and>
                                    load h' (data v') i = Inr ([7] ! i)"
    "load h' (data v') (unat (size_v v)) = Inr 8"
    "capacity v' = max 1 (capacity v * 2)"
    by blast+
  have u: "unat (size_v v) = 1" using sz by simp
  from g(1) u have l0: "load h' (data v') 0 = Inr 7" by auto
  from g(2) u have l1: "load h' (data v') 1 = Inr 8" by simp
  from g(3) c have c': "capacity v' = 2" by simp
  from r full q c l0 l1 c' show ?thesis by blast
qed

section \<open>Sequences of pushes and pops\<close>

lemma push_all_repr:
  assumes "repr h v ys" and "push_all v h xs = Inr (v', h')"
  shows "repr h' v' (ys @ xs)"
  using assms
proof (induction xs arbitrary: v h ys)
  case Nil
  then show ?case by simp
next
  case (Cons x xs)
  from Cons.prems(2) obtain v1 h1 where p: "push_T_vector v h x = Inr (v1, h1)"
    and rest: "push_all v1 h1 xs = Inr (v', h')"
    by (auto split: sum.splits)
  from push_T_vector_repr [OF Cons.prems(1) p] have "repr h1 v1 (ys @ [x])" by simp
  from Cons.IH [OF this rest] show ?case by simp
qed

lemma pop_n_repr:
  assumes "repr h v (ys @ xs)"
  shows "snd (pop_n (length xs) v h) = map Inr (rev xs) \<and>
         repr h (fst (pop_n (length xs) v h)) ys"
  using assms
proof (induction xs arbitrary: v rule: rev_induct)
  case Nil
  then show ?case by simp
next
  case (snoc x xs)
  have r: "repr h v ((ys @ xs) @ [x])" using snoc.prems by simp
  from pop_T_vector_repr [OF r]
  have p: "pop_T_vector v h = (v\<lparr>size_v := size_v v - 1\<rparr>, Inr x)"
    and r1: "repr h (v\<lparr>size_v := size_v v - 1\<rparr>) (ys @ xs)" by simp_all
  from snoc.IH [OF r1] p show ?case
    by (auto split: prod.splits)
qed

text \<open>
  C2. Into a well-formed vector, whatever it already holds, the values \<open>xs\<close> are pushed in
  order, and the pushes complete. Then as many pops as values were pushed return them in
  the reverse order, each one read without fault, and leave the vector holding what it
  held before.
\<close>

theorem stack_semantics:
  assumes "repr h v ys" and "push_all v h xs = Inr (v', h')"
  shows "snd (pop_n (length xs) v' h') = map Inr (rev xs) \<and>
         repr h' (fst (pop_n (length xs) v' h')) ys"
  using pop_n_repr [OF push_all_repr [OF assms]] .

theorem stack_semantics_witness:
  "\<exists>v0 h0 v h. new_T_vector 28 4 (arena 100 :: int heap) = Inr (v0, h0) \<and>
     repr h0 v0 [] \<and> push_all v0 h0 [1, 2, 3] = Inr (v, h) \<and>
     snd (pop_n 3 v h) = [Inr 3, Inr 2, Inr 1]"
proof -
  obtain v0 h0 where n: "new_T_vector 28 4 (arena 100 :: int heap) = Inr (v0, h0)"
    by (simp add: new_T_vector_def new_vector_def allocate_def arena_def DEFAULT_CAPACITY_def)
  obtain v h where p: "push_all v0 h0 [1, 2, 3 :: int] = Inr (v, h)"
    using n
    by (auto simp: new_T_vector_def new_vector_def allocate_def arena_def DEFAULT_CAPACITY_def
        push_T_vector_def store_def vector.extend_def vector_resize_def Let_def kfree_def)
  from new_T_vector_repr [OF n] have r0: "repr h0 v0 []" by simp
  from stack_semantics [OF r0 p]
  have s: "snd (pop_n (length [1, 2, 3 :: int]) v h) = map Inr (rev [1, 2, 3])" by blast
  have l: "length [1, 2, 3 :: int] = 3" by simp
  have m: "map Inr (rev [1, 2, 3 :: int]) = [Inr 3, Inr 2, Inr 1 :: fault + int]" by simp
  from s have "snd (pop_n 3 v h) = [Inr 3, Inr 2, Inr 1]" unfolding l m .
  with n r0 p show ?thesis by blast
qed

lemma never_pops_empty_take:
  assumes "never_pops_empty ops n"
  shows "never_pops_empty (take k ops) n"
  using assms
proof (induction ops n arbitrary: k rule: never_pops_empty.induct)
  case (1 n)
  then show ?case by simp
next
  case (2 x ops n)
  then show ?case by (cases k) simp_all
next
  case (3 ops n)
  then show ?case by (cases k) simp_all
qed

lemma run_repr:
  assumes "repr h v xs" and "never_pops_empty ops (length xs)"
    and "run v h ops = Inr (v', h')"
  shows "\<exists>ys. repr h' v' ys"
  using assms
proof (induction ops arbitrary: v h xs)
  case Nil
  then show ?case by auto
next
  case (Cons a ops)
  show ?case
  proof (cases a)
    case (Push x)
    with Cons.prems(3) obtain v1 h1 where p: "push_T_vector v h x = Inr (v1, h1)"
      and rest: "run v1 h1 ops = Inr (v', h')"
      by (auto split: sum.splits)
    from push_T_vector_repr [OF Cons.prems(1) p] have r1: "repr h1 v1 (xs @ [x])" by simp
    have "never_pops_empty ops (length (xs @ [x]))"
      using Cons.prems(2) Push by simp
    from Cons.IH [OF r1 this rest] show ?thesis .
  next
    case Pop
    with Cons.prems(2) have pos: "0 < length xs"
      and np: "never_pops_empty ops (length xs - 1)" by simp_all
    from pos obtain zs z where xs: "xs = zs @ [z]"
      by (cases xs rule: rev_cases) auto
    from pop_T_vector_repr [of h v zs z] Cons.prems(1) xs
    have p: "fst (pop_T_vector v h) = v\<lparr>size_v := size_v v - 1\<rparr>"
      and r1: "repr h (v\<lparr>size_v := size_v v - 1\<rparr>) zs" by simp_all
    from Cons.prems(3) Pop p have rest: "run (v\<lparr>size_v := size_v v - 1\<rparr>) h ops = Inr (v', h')"
      by simp
    from np xs have "never_pops_empty ops (length zs)" by simp
    from Cons.IH [OF r1 this rest] show ?thesis .
  qed
qed

text \<open>
  C3, as the code has it. From a constructed vector, take a sequence of pushes and pops
  that never pops while nothing is held. After every call of the sequence that is
  reached without a fault, that is after every prefix \<open>take k ops\<close>, \<^verbatim>\<open>size <= capacity\<close>.
\<close>

theorem capacity_invariant:
  assumes "new_T_vector sizeof_struct sizeof_T h0 = Inr (v0, h1)"
    and "never_pops_empty ops 0"
    and "run v0 h1 (take k ops) = Inr (v, h)"
  shows "unat (size_v v) \<le> unat (capacity v)"
proof -
  from new_T_vector_repr [OF assms(1)] have r0: "repr h1 v0 []" by simp
  have "never_pops_empty (take k ops) (length ([] :: 'a list))"
    using never_pops_empty_take [OF assms(2)] by simp
  from run_repr [OF r0 this assms(3)] obtain ys where "repr h v ys" by blast
  then show ?thesis by (rule repr_size_le_capacity)
qed

theorem capacity_invariant_witness:
  "\<exists>v0 h1 v h. new_T_vector 28 4 (arena 100 :: int heap) = Inr (v0, h1) \<and>
     never_pops_empty [Push (1 :: int), Push 2, Pop, Push 3] 0 \<and>
     run v0 h1 (take 4 [Push 1, Push 2, Pop, Push 3]) = Inr (v, h) \<and>
     unat (size_v v) \<le> unat (capacity v)"
proof -
  obtain v0 h1 where n: "new_T_vector 28 4 (arena 100 :: int heap) = Inr (v0, h1)"
    by (simp add: new_T_vector_def new_vector_def allocate_def arena_def DEFAULT_CAPACITY_def)
  have np: "never_pops_empty [Push (1 :: int), Push 2, Pop, Push 3] 0" by simp
  obtain v h where p: "run v0 h1 (take 4 [Push (1 :: int), Push 2, Pop, Push 3]) = Inr (v, h)"
    using n
    by (auto simp: new_T_vector_def new_vector_def allocate_def arena_def DEFAULT_CAPACITY_def
        push_T_vector_def pop_T_vector_def store_def vector.extend_def vector_resize_def
        Let_def kfree_def)
  from capacity_invariant [OF n np p] n np p show ?thesis by blast
qed

lemma unat_minus_1_u32: "unat (- 1 :: u32) = 4294967295"
  by (simp add: unsigned_minus_1_eq_mask mask_eq_exp_minus_1)

text \<open>
  C3, as the claim has it, fails on the sequence that pops the vector just constructed:
  the pop completes, and leaves \<^verbatim>\<open>size = 4294967295\<close> with \<^verbatim>\<open>capacity = 1\<close>.
\<close>

theorem capacity_invariant_counterexample:
  "(case new_T_vector 28 4 (arena 100 :: int heap) of
      Inl e \<Rightarrow> False
    | Inr (v0, h1) \<Rightarrow>
        (case run v0 h1 [Pop] of
           Inl e \<Rightarrow> False
         | Inr (v, h) \<Rightarrow>
             unat (size_v v) = 4294967295 \<and> unat (capacity v) = 1 \<and>
             \<not> unat (size_v v) \<le> unat (capacity v)))"
  by (simp add: new_T_vector_def new_vector_def allocate_def arena_def DEFAULT_CAPACITY_def
      pop_T_vector_def vector.extend_def Let_def unat_minus_1_u32)

section \<open>Doubling\<close>

lemma double_pow2_exact:
  fixes c :: u32
  assumes "unat c = 2 ^ k" and "k \<le> 30"
  shows "unat (max 1 (c * 2)) = 2 ^ Suc k"
proof -
  from assms(2) have k: "Suc k \<le> 31" by simp
  have "(2::nat) ^ Suc k \<le> 2 ^ 31"
    using k by (intro power_increasing) simp_all
  then have lt: "(2::nat) ^ Suc k < 2 ^ 32" by simp
  have "unat (c * 2) = (unat c * 2) mod 2 ^ 32"
    by (simp add: unat_word_ariths)
  also have "\<dots> = 2 ^ Suc k" using assms(1) lt by simp
  finally have u: "unat (c * 2) = 2 ^ Suc k" .
  then have "unat (1 :: u32) \<le> unat (c * 2)" by simp
  then have "1 \<le> c * 2" by (simp add: word_le_nat_alt)
  then have "max 1 (c * 2) = c * 2" by (simp add: max_def)
  with u show ?thesis by simp
qed

lemma double_pow2_wrap:
  fixes c :: u32
  assumes "unat c = 2 ^ 31"
  shows "max 1 (c * 2) = 1"
proof -
  have "unat (c * 2) = (unat c * 2) mod 2 ^ 32"
    by (simp add: unat_word_ariths)
  also have "\<dots> = 0" using assms by simp
  finally have "c * 2 = 0" by (simp add: unat_eq_0)
  then show ?thesis by simp
qed

lemma lt_double:
  fixes c :: u32
  assumes "unat c < 2 ^ 31"
  shows "unat c < unat (max 1 (c * 2))"
proof (cases "c = 0")
  case True
  then show ?thesis by simp
next
  case False
  then have pos: "0 < unat c" by (simp add: unat_gt_0)
  have "unat (c * 2) = (unat c * 2) mod 2 ^ 32"
    by (simp add: unat_word_ariths)
  also have "\<dots> = unat c * 2" using assms by simp
  finally have u: "unat (c * 2) = unat c * 2" .
  with pos have "unat (1 :: u32) \<le> unat (c * 2)" by simp
  then have "1 \<le> c * 2" by (simp add: word_le_nat_alt)
  then have "max 1 (c * 2) = c * 2" by (simp add: max_def)
  with u pos show ?thesis by simp
qed

text \<open>
  One push keeps this: the capacity is \<open>2\<^sup>k\<close> with \<open>k \<le> 31\<close>, and unless \<open>k = 0\<close> more
  than \<open>2\<^sup>k\<^sup>-\<^sup>1\<close> elements are held.
\<close>

lemma push_doubling_step:
  assumes r: "repr h v ys" and p: "push_T_vector v h x = Inr (v', h')"
    and c: "unat (capacity v) = 2 ^ k" and k: "k \<le> 31"
    and half: "k = 0 \<or> 2 ^ (k - 1) < length ys"
  shows "\<exists>j\<le>31. unat (capacity v') = 2 ^ j \<and> (j = 0 \<or> 2 ^ (j - 1) < Suc (length ys))"
proof (cases "size_v v = capacity v")
  case False
  with push_T_vector_repr [OF r p] have "capacity v' = capacity v" by simp
  with c k half show ?thesis by (intro exI [of _ k]) auto
next
  case True
  from push_T_vector_repr [OF r p] True have r': "repr h' v' (ys @ [x])"
    and c': "capacity v' = max 1 (capacity v * 2)" by simp_all
  have len: "length ys = 2 ^ k"
    using r True c by (auto elim: reprE)
  have fit: "Suc (length ys) \<le> unat (capacity v')"
    using repr_size_le_capacity [OF r'] r' by (auto elim: reprE)
  have "k \<noteq> 31"
  proof
    assume "k = 31"
    with c have "max 1 (capacity v * 2) = 1" by (intro double_pow2_wrap) simp
    with c' fit len show False by simp
  qed
  with k have k30: "k \<le> 30" by simp
  from double_pow2_exact [OF c k30] c' have "unat (capacity v') = 2 ^ Suc k" by simp
  moreover have "Suc k \<le> 31" using k30 by simp
  moreover have "(2::nat) ^ (Suc k - 1) < Suc (length ys)" using len by simp
  ultimately show ?thesis by blast
qed

lemma push_all_doubling:
  assumes "repr h v ys" and "push_all v h xs = Inr (v', h')"
    and "unat (capacity v) = 2 ^ k" and "k \<le> 31"
    and "k = 0 \<or> 2 ^ (k - 1) < length ys"
  shows "\<exists>j\<le>31. unat (capacity v') = 2 ^ j \<and> (j = 0 \<or> 2 ^ (j - 1) < length ys + length xs)"
  using assms
proof (induction xs arbitrary: v h ys k)
  case Nil
  then show ?case by auto
next
  case (Cons x xs)
  from Cons.prems(2) obtain v1 h1 where p: "push_T_vector v h x = Inr (v1, h1)"
    and rest: "push_all v1 h1 xs = Inr (v', h')"
    by (auto split: sum.splits)
  from push_T_vector_repr [OF Cons.prems(1) p] have r1: "repr h1 v1 (ys @ [x])" by simp
  from push_doubling_step [OF Cons.prems(1) p Cons.prems(3-5)]
  obtain j where j: "j \<le> 31" "unat (capacity v1) = 2 ^ j"
    "j = 0 \<or> 2 ^ (j - 1) < length (ys @ [x])" by auto
  from Cons.IH [OF r1 rest j(2) j(1) j(3)] show ?case by simp
qed

text \<open>A power of two that is at least \<open>n\<close>, and whose half is less than \<open>n\<close>, is the smallest.\<close>

lemma smallest_pow2:
  assumes "j = 0 \<or> 2 ^ (j - 1) < (n::nat)" and "n \<le> 2 ^ i"
  shows "j \<le> i"
proof (cases "j = 0")
  case True
  then show ?thesis by simp
next
  case False
  with assms(1) have "2 ^ (j - 1) < n" by simp
  with assms(2) have "(2::nat) ^ (j - 1) < 2 ^ i" by linarith
  then have "j - 1 < i" by (simp add: power_strict_increasing_iff)
  with False show ?thesis by simp
qed

text \<open>
  C1, as the code has it. From a constructed vector \<open>n\<close> values are pushed with no pop in
  between, and the pushes complete. Then \<open>n\<close> is at most \<open>2\<^sup>3\<^sup>1\<close>, and the capacity is the
  smallest power of two that is at least \<open>n\<close> (for \<open>n = 0\<close> that is 1).
\<close>

theorem doubling_law:
  assumes "new_T_vector sizeof_struct sizeof_T h0 = Inr (v0, h1)"
    and "push_all v0 h1 xs = Inr (v, h)"
  shows "length xs \<le> 2 ^ 31 \<and>
         (\<exists>k. unat (capacity v) = 2 ^ k \<and> length xs \<le> 2 ^ k \<and>
              (\<forall>j. length xs \<le> 2 ^ j \<longrightarrow> k \<le> j))"
proof -
  from new_T_vector_repr [OF assms(1)] have r0: "repr h1 v0 []"
    and c0: "unat (capacity v0) = 2 ^ 0" by simp_all
  from push_all_doubling [OF r0 assms(2) c0] obtain k where k: "k \<le> 31"
    "unat (capacity v) = 2 ^ k" "k = 0 \<or> 2 ^ (k - 1) < length xs" by auto
  from push_all_repr [OF r0 assms(2)] have r: "repr h v xs" by simp
  have le: "length xs \<le> 2 ^ k"
    using repr_size_le_capacity [OF r] r k(2) by (auto elim: reprE)
  have "(2::nat) ^ k \<le> 2 ^ 31"
    using k(1) by (intro power_increasing) simp_all
  with le have b: "length xs \<le> 2 ^ 31" by simp
  have "\<forall>j. length xs \<le> 2 ^ j \<longrightarrow> k \<le> j"
    using smallest_pow2 [OF k(3)] by blast
  with b k(2) le show ?thesis by blast
qed

theorem doubling_law_witness:
  "\<exists>v0 h1 v h. new_T_vector 28 4 (arena 100 :: int heap) = Inr (v0, h1) \<and>
     push_all v0 h1 [1, 2, 3] = Inr (v, h) \<and> unat (capacity v) = 4"
proof -
  obtain v0 h1 where n: "new_T_vector 28 4 (arena 100 :: int heap) = Inr (v0, h1)"
    by (simp add: new_T_vector_def new_vector_def allocate_def arena_def DEFAULT_CAPACITY_def)
  obtain v h where p: "push_all v0 h1 [1, 2, 3 :: int] = Inr (v, h)"
    using n
    by (auto simp: new_T_vector_def new_vector_def allocate_def arena_def DEFAULT_CAPACITY_def
        push_T_vector_def store_def vector.extend_def vector_resize_def Let_def kfree_def)
  from doubling_law [OF n p] obtain k where k: "unat (capacity v) = 2 ^ k"
    "length [1, 2, 3 :: int] \<le> 2 ^ k" "\<forall>j. length [1, 2, 3 :: int] \<le> 2 ^ j \<longrightarrow> k \<le> j"
    by blast
  have "length [1, 2, 3 :: int] \<le> 2 ^ 2" by simp
  with k(3) have "k \<le> 2" by blast
  moreover have "k \<noteq> 0"
  proof
    assume "k = 0"
    with k(2) show False by simp
  qed
  moreover have "k \<noteq> 1"
  proof
    assume "k = 1"
    with k(2) show False by simp
  qed
  ultimately have "k = 2" by simp
  with k(1) have "unat (capacity v) = 4" by simp
  with n p show ?thesis by blast
qed

section \<open>Pushes that complete\<close>

text \<open>
  Growth is carried out when the capacity is below \<open>2\<^sup>3\<^sup>1\<close> and the arena has the bytes of
  the new buffer.
\<close>

lemma vector_resize_succeeds:
  assumes r: "repr h v ys" and full: "size_v v = capacity v"
    and small: "unat (capacity v) < 2 ^ 31"
    and room: "unat (max 1 (capacity v * 2)) * data_size v \<le> avail h"
  shows "\<exists>v1 h1. vector_resize v h = Inr (v1, h1) \<and>
           avail h1 = avail h - unat (max 1 (capacity v * 2)) * data_size v"
proof -
  from r obtain cells where c: "blocks h (data v) = Some cells"
    "length cells = unat (capacity v)" "data v < brk h"
    by (rule reprE)
  have ne: "brk h \<noteq> data v" using c(3) by simp
  have fit: "unat (size_v v) \<le> unat (max 1 (capacity v * 2))"
    using lt_double [OF small] full by simp
  have old: "unat (size_v v) \<le> length cells" using c(2) full by simp
  show ?thesis
    using room c(1) ne fit old
    by (simp add: vector_resize_def Let_def allocate_def kfree_def)
qed

lemma push_T_vector_succeeds:
  assumes r: "repr h v ys"
    and room: "size_v v = capacity v \<longrightarrow>
       unat (capacity v) < 2 ^ 31 \<and> unat (max 1 (capacity v * 2)) * data_size v \<le> avail h"
  shows "\<exists>v' h'. push_T_vector v h x = Inr (v', h') \<and>
           avail h' = (if size_v v = capacity v
                       then avail h - unat (max 1 (capacity v * 2)) * data_size v
                       else avail h)"
proof (cases "size_v v = capacity v")
  case False
  then have "unat (size_v v) \<noteq> unat (capacity v)" by (simp add: word_unat_eq_iff)
  with repr_size_le_capacity [OF r] have lt: "unat (size_v v) < unat (capacity v)" by simp
  from push_T_vector_in_capacity [OF r lt, of x] False show ?thesis by auto
next
  case True
  with room have small: "unat (capacity v) < 2 ^ 31"
    and rm: "unat (max 1 (capacity v * 2)) * data_size v \<le> avail h" by simp_all
  from vector_resize_succeeds [OF r True small rm] obtain v1 h1 where
    rs: "vector_resize v h = Inr (v1, h1)"
    and av: "avail h1 = avail h - unat (max 1 (capacity v * 2)) * data_size v" by blast
  from vector_resize_repr [OF r rs] have r1: "repr h1 v1 ys"
    and f: "capacity v1 = max 1 (capacity v * 2)" "size_v v1 = size_v v" by simp_all
  have lt: "unat (size_v v1) < unat (capacity v1)"
    using lt_double [OF small] f True by simp
  from store_in_capacity [OF r1 lt, of x] obtain h2 where
    s: "store h1 (data v1) (unat (size_v v1)) x = Inr h2" and av2: "avail h2 = avail h1"
    by blast
  have "push_T_vector v h x = Inr (v1\<lparr>size_v := size_v v1 + 1\<rparr>, h2)"
    using True rs s by (simp add: push_T_vector_def)
  with av av2 True show ?thesis by simp
qed

text \<open>
  A sequence of pushes completes when no more than \<open>2\<^sup>3\<^sup>1\<close> elements are held at its end
  and the arena has four times their bytes: the buffers allocated on the way are of 2, 4,
  8, ... slots and none is given back to the arena.
\<close>

lemma push_all_succeeds:
  assumes "repr h v ys" and "unat (capacity v) = 2 ^ k" and "k \<le> 31"
    and "k = 0 \<or> 2 ^ (k - 1) < length ys"
    and "length ys + length xs \<le> 2 ^ 31"
    and "4 * ((length ys + length xs) * data_size v)
           \<le> avail h + 2 * (unat (capacity v) * data_size v)"
  shows "\<exists>v' h'. push_all v h xs = Inr (v', h') \<and> data_size v' = data_size v \<and>
           4 * ((length ys + length xs) * data_size v)
             \<le> avail h' + 2 * (unat (capacity v') * data_size v)"
  using assms
proof (induction xs arbitrary: v h ys k)
  case Nil
  then show ?case by simp
next
  case (Cons x xs)
  let ?N = "length ys + length (x # xs)"
  let ?d = "data_size v"
  let ?a = "unat (capacity v) * ?d"
  have len: "length ys = unat (size_v v)" using Cons.prems(1) by (rule reprE)
  have room: "size_v v = capacity v \<longrightarrow>
       unat (capacity v) < 2 ^ 31 \<and> unat (max 1 (capacity v * 2)) * ?d \<le> avail h \<and>
       unat (max 1 (capacity v * 2)) = 2 * unat (capacity v)"
  proof
    assume full: "size_v v = capacity v"
    with len have cl: "unat (capacity v) = length ys" by simp
    with Cons.prems(5) have small: "unat (capacity v) < 2 ^ 31" by simp
    with Cons.prems(2) have kk: "(2::nat) ^ k < 2 ^ 31" by simp
    have "k < 31"
    proof (rule ccontr)
      assume "\<not> k < 31"
      then have "31 \<le> k" by simp
      then have "(2::nat) ^ 31 \<le> 2 ^ k" by (intro power_increasing) simp_all
      with kk show False by simp
    qed
    then have k30: "k \<le> 30" by simp
    from double_pow2_exact [OF Cons.prems(2) k30] Cons.prems(2)
    have dbl: "unat (max 1 (capacity v * 2)) = 2 * unat (capacity v)" by simp
    have "unat (capacity v) \<le> ?N" using cl by simp
    then have "?a \<le> ?N * ?d" by (rule mult_le_mono1)
    with Cons.prems(6) have "2 * ?a \<le> avail h" by linarith
    then have "unat (max 1 (capacity v * 2)) * ?d \<le> avail h"
      using dbl by (simp add: mult.assoc)
    with small dbl show "unat (capacity v) < 2 ^ 31 \<and>
       unat (max 1 (capacity v * 2)) * ?d \<le> avail h \<and>
       unat (max 1 (capacity v * 2)) = 2 * unat (capacity v)" by simp
  qed
  then have room': "size_v v = capacity v \<longrightarrow>
       unat (capacity v) < 2 ^ 31 \<and> unat (max 1 (capacity v * 2)) * ?d \<le> avail h"
    by blast
  from push_T_vector_succeeds [OF Cons.prems(1) room', of x] obtain v1 h1 where
    p: "push_T_vector v h x = Inr (v1, h1)"
    and av: "avail h1 = (if size_v v = capacity v
                         then avail h - unat (max 1 (capacity v * 2)) * ?d
                         else avail h)" by blast
  from push_T_vector_repr [OF Cons.prems(1) p] have r1: "repr h1 v1 (ys @ [x])"
    and c1: "capacity v1 =
               (if size_v v = capacity v then max 1 (capacity v * 2) else capacity v)"
    and d1: "data_size v1 = ?d" by simp_all
  from push_doubling_step [OF Cons.prems(1) p Cons.prems(2-4)]
  obtain j where j: "j \<le> 31" "unat (capacity v1) = 2 ^ j"
    "j = 0 \<or> 2 ^ (j - 1) < length (ys @ [x])" by auto
  have b1: "length (ys @ [x]) + length xs \<le> 2 ^ 31" using Cons.prems(5) by simp
  have inv: "4 * ((length (ys @ [x]) + length xs) * data_size v1)
               \<le> avail h1 + 2 * (unat (capacity v1) * data_size v1)"
  proof (cases "size_v v = capacity v")
    case False
    with av c1 d1 Cons.prems(6) show ?thesis by simp
  next
    case True
    with room have dbl: "unat (max 1 (capacity v * 2)) = 2 * unat (capacity v)"
      and fits: "unat (max 1 (capacity v * 2)) * ?d \<le> avail h" by blast+
    from av True dbl have av': "avail h1 = avail h - 2 * ?a" by (simp add: mult.assoc)
    from fits dbl have fits': "2 * ?a \<le> avail h" by (simp add: mult.assoc)
    from c1 True dbl d1 have e1: "unat (capacity v1) * data_size v1 = 2 * ?a"
      by (simp add: mult.assoc)
    have e2: "4 * ((length (ys @ [x]) + length xs) * data_size v1) = 4 * (?N * ?d)"
      using d1 by simp
    from Cons.prems(6) have P: "4 * (?N * ?d) \<le> avail h + 2 * ?a" .
    show ?thesis unfolding e1 e2 av' using P fits' by linarith
  qed
  from Cons.IH [OF r1 j(2) j(1) j(3) b1 inv] obtain v' h' where
    rest: "push_all v1 h1 xs = Inr (v', h')" and d': "data_size v' = data_size v1"
    and inv': "4 * ((length (ys @ [x]) + length xs) * data_size v1)
                 \<le> avail h' + 2 * (unat (capacity v') * data_size v1)" by blast
  from p rest have "push_all v h (x # xs) = Inr (v', h')" by simp
  with d' d1 inv' show ?case by simp
qed

lemma push_all_append:
  "push_all v h (xs @ zs) =
     (case push_all v h xs of Inl e \<Rightarrow> Inl e | Inr (v1, h1) \<Rightarrow> push_all v1 h1 zs)"
  by (induction xs arbitrary: v h) (auto split: sum.splits)

text \<open>At capacity \<open>2\<^sup>3\<^sup>1\<close> the doubled capacity no longer fits the field, and growth fails.\<close>

lemma vector_resize_wrap:
  assumes r: "repr h v ys" and full: "size_v v = capacity v"
    and c: "unat (capacity v) = 2 ^ 31" and room: "data_size v \<le> avail h"
  shows "vector_resize v h = Inl Out_of_bounds"
proof -
  from r obtain cells where cs: "blocks h (data v) = Some cells" "data v < brk h"
    by (rule reprE)
  have ne: "brk h \<noteq> data v" using cs(2) by simp
  have w: "max 1 (capacity v * 2) = 1" using c by (rule double_pow2_wrap)
  have big: "\<not> unat (size_v v) \<le> 1" using full c by simp
  show ?thesis
    using w room cs(1) ne big
    by (simp add: vector_resize_def Let_def allocate_def)
qed
lemma new_T_vector_avail:
  assumes "new_T_vector s1 s2 h = Inr (v, h')"
  shows "avail h' = avail h - s2"
  using assms
  by (auto simp: new_T_vector_def new_vector_def allocate_def DEFAULT_CAPACITY_def
      split: option.splits if_splits)

text \<open>
  C1, as the claim has it, fails at \<open>n = 2\<^sup>3\<^sup>1 + 1 = 2147483649\<close>, where the smallest power
  of two that is at least \<open>n\<close> is \<open>2\<^sup>3\<^sup>2\<close>, a value the \<^verbatim>\<open>uint32_t\<close> field \<^verbatim>\<open>capacity\<close> does
  not have. In an arena of \<open>2\<^sup>3\<^sup>6\<close> bytes the first 2147483648 pushes of four-byte values
  complete and leave the capacity at 2147483648; the next push finds the vector full, the
  doubled capacity wraps to 0 so that the new capacity is \<^verbatim>\<open>max(1, 0) = 1\<close>, and the copy
  of the elements runs out of the new buffer.
\<close>

theorem doubling_law_counterexample:
  "(case new_T_vector 28 4 (arena 68719476736 :: int heap) of
      Inl e \<Rightarrow> False
    | Inr (v0, h1) \<Rightarrow>
        (case push_all v0 h1 (replicate 2147483648 0) of
           Inl e \<Rightarrow> False
         | Inr (v, h) \<Rightarrow> unat (capacity v) = 2147483648) \<and>
        push_all v0 h1 (replicate 2147483649 0) = Inl Out_of_bounds)"
proof -
  let ?xs = "replicate 2147483648 (0 :: int)"
  obtain v0 h1 where n: "new_T_vector 28 4 (arena 68719476736 :: int heap) = Inr (v0, h1)"
    by (simp add: new_T_vector_def new_vector_def allocate_def arena_def DEFAULT_CAPACITY_def)
  from new_T_vector_repr [OF n] have r0: "repr h1 v0 []" and c0: "unat (capacity v0) = 2 ^ 0"
    and d0: "data_size v0 = 4" by simp_all
  from new_T_vector_avail [OF n] have a0: "avail h1 = 68719476732"
    by (simp add: arena_def)
  have k0: "(0::nat) \<le> 31" by simp
  have half0: "(0::nat) = 0 \<or> 2 ^ (0 - 1) < length ([] :: int list)" by simp
  have b0: "length ([] :: int list) + length ?xs \<le> 2 ^ 31" by simp
  have room0: "4 * ((length ([] :: int list) + length ?xs) * data_size v0)
                 \<le> avail h1 + 2 * (unat (capacity v0) * data_size v0)"
    using c0 d0 a0 by simp
  from push_all_succeeds [OF r0 c0 k0 half0 b0 room0] obtain v h where
    p: "push_all v0 h1 ?xs = Inr (v, h)" and d: "data_size v = data_size v0"
    and inv: "4 * ((length ([] :: int list) + length ?xs) * data_size v0)
                \<le> avail h + 2 * (unat (capacity v) * data_size v0)" by blast
  from push_all_repr [OF r0 p] have r: "repr h v ?xs" by simp
  from push_all_doubling [OF r0 p c0 k0 half0] obtain j where j: "j \<le> 31"
    "unat (capacity v) = 2 ^ j" by blast
  have sz: "unat (size_v v) = 2147483648"
    using r by (auto elim: reprE)
  have big: "(2147483648::nat) \<le> 2 ^ j"
    using repr_size_le_capacity [OF r] sz j(2) by simp
  have "31 \<le> j"
  proof (rule ccontr)
    assume "\<not> 31 \<le> j"
    then have "j \<le> 30" by simp
    then have "(2::nat) ^ j \<le> 2 ^ 30" by (intro power_increasing) simp_all
    with big show False by simp
  qed
  with j(1) have "j = 31" by simp
  with j(2) have c: "unat (capacity v) = 2 ^ 31" by simp
  then have cap: "unat (capacity v) = 2147483648" by simp
  with sz have full: "size_v v = capacity v" by (simp add: word_unat_eq_iff)
  have room: "data_size v \<le> avail h"
    using inv d d0 cap by simp
  from vector_resize_wrap [OF r full c room] full
  have last: "push_T_vector v h 0 = Inl Out_of_bounds"
    by (simp add: push_T_vector_def)
  have "(2147483649::nat) = Suc 2147483648" by simp
  then have "replicate 2147483649 (0 :: int) = ?xs @ [0]"
    by (simp only: replicate_Suc replicate_append_same)
  then have "push_all v0 h1 (replicate 2147483649 0) = Inl Out_of_bounds"
    using p last by (simp add: push_all_append)
  with n p cap show ?thesis by simp
qed

section \<open>Deleting a vector of pointers\<close>








end
